theory Spec2Isabelle
  imports Complex_Main "HOL-Library.Signed_Division"
begin

unbundle bit_operations_syntax

section \<open>Arithmetic of the source\<close>

text \<open>
  The C types \<^verbatim>\<open>float\<close> and \<^verbatim>\<open>double\<close> are modelled by one type: a finite value is a
  real number and arithmetic on finite values is exact (no rounding, no overflow, no
  signed zero); the three special values of IEEE 754 are kept, with the rules C gives
  them, because the source produces them (\<^verbatim>\<open>log10(0)\<close>) and lets them through its
  comparisons (\<^verbatim>\<open>NaN < 0.0\<close> is false). What is proved below therefore concerns the order
  and the choice of the operations, the special values, and exact values such as zero; how
  far the rounded results of the source are from the exact ones is outside this model.

  The C type \<^verbatim>\<open>int\<close> is modelled by \<open>int\<close> where the source receives a value from its
  caller, and by \<open>nat\<close> for loop counters and array indices, which never go below zero.
  Neither wraps, so the model follows the source as long as every \<^verbatim>\<open>int\<close> the source
  computes stays below \<open>2^31\<close>. In \<^verbatim>\<open>FFT\<close> the largest is the last value of \<^verbatim>\<open>BlockSize\<close>,
  twice the size: it is an \<^verbatim>\<open>int\<close> for the sizes up to \<open>2^29\<close>, which are all the sizes that
  \<^verbatim>\<open>RealFFT\<close>, \<^verbatim>\<open>PowerSpectrum\<close> (half an \<^verbatim>\<open>int\<close>) and \<^verbatim>\<open>analysefrequencies\<close> (at most 65536)
  ask for. In \<^verbatim>\<open>analysefrequencies\<close> it is the last value of \<^verbatim>\<open>start + mWindowSize\<close>, at
  most \<^verbatim>\<open>mDataLen + mWindowSize / 2\<close>: it is an \<^verbatim>\<open>int\<close> when \<^verbatim>\<open>mDataLen\<close> is at most
  \<open>2147483647 - windowSize / 2\<close>. The theorems below that say of a call of \<^verbatim>\<open>FFT\<close> or of
  \<^verbatim>\<open>analysefrequencies\<close> that it returns stay within these bounds.
\<close>

datatype float = Finite real | PInf | NInf | NaN

instantiation float :: "{plus, minus, uminus, times, inverse, ord}"
begin

fun plus_float :: "float \<Rightarrow> float \<Rightarrow> float" where
  "plus_float NaN y = NaN"
| "plus_float x NaN = NaN"
| "plus_float (Finite a) (Finite b) = Finite (a + b)"
| "plus_float PInf NInf = NaN"
| "plus_float NInf PInf = NaN"
| "plus_float PInf y = PInf"
| "plus_float NInf y = NInf"
| "plus_float x PInf = PInf"
| "plus_float x NInf = NInf"

fun uminus_float :: "float \<Rightarrow> float" where
  "uminus_float (Finite a) = Finite (- a)"
| "uminus_float PInf = NInf"
| "uminus_float NInf = PInf"
| "uminus_float NaN = NaN"

definition minus_float :: "float \<Rightarrow> float \<Rightarrow> float" where
  "minus_float x y = x + (- y)"

fun times_float :: "float \<Rightarrow> float \<Rightarrow> float" where
  "times_float NaN y = NaN"
| "times_float x NaN = NaN"
| "times_float (Finite a) (Finite b) = Finite (a * b)"
| "times_float (Finite a) PInf = (if a = 0 then NaN else if 0 < a then PInf else NInf)"
| "times_float (Finite a) NInf = (if a = 0 then NaN else if 0 < a then NInf else PInf)"
| "times_float PInf (Finite b) = (if b = 0 then NaN else if 0 < b then PInf else NInf)"
| "times_float NInf (Finite b) = (if b = 0 then NaN else if 0 < b then NInf else PInf)"
| "times_float PInf PInf = PInf"
| "times_float PInf NInf = NInf"
| "times_float NInf PInf = NInf"
| "times_float NInf NInf = PInf"

fun divide_float :: "float \<Rightarrow> float \<Rightarrow> float" where
  "divide_float NaN y = NaN"
| "divide_float x NaN = NaN"
| "divide_float (Finite a) (Finite b) =
     (if b = 0 then (if a = 0 then NaN else if 0 < a then PInf else NInf)
      else Finite (a / b))"
| "divide_float (Finite a) y = Finite 0"
| "divide_float PInf (Finite b) = (if 0 \<le> b then PInf else NInf)"
| "divide_float NInf (Finite b) = (if 0 \<le> b then NInf else PInf)"
| "divide_float x y = NaN"

fun inverse_float :: "float \<Rightarrow> float" where
  "inverse_float (Finite a) = (if a = 0 then PInf else Finite (1 / a))"
| "inverse_float NaN = NaN"
| "inverse_float x = Finite 0"

fun less_float :: "float \<Rightarrow> float \<Rightarrow> bool" where
  "less_float NaN y = False"
| "less_float x NaN = False"
| "less_float (Finite a) (Finite b) = (a < b)"
| "less_float x NInf = False"
| "less_float PInf y = False"
| "less_float x y = True"

fun less_eq_float :: "float \<Rightarrow> float \<Rightarrow> bool" where
  "less_eq_float NaN y = False"
| "less_eq_float x NaN = False"
| "less_eq_float (Finite a) (Finite b) = (a \<le> b)"
| "less_eq_float NInf y = True"
| "less_eq_float x PInf = True"
| "less_eq_float x y = False"

instance ..

end

text \<open>Conversion of a C \<^verbatim>\<open>int\<close> to floating point.\<close>

definition float_of_int :: "int \<Rightarrow> float" where
  "float_of_int n = Finite (of_int n)"

text \<open>The functions of \<^verbatim>\<open>math.h\<close> the source calls: \<^verbatim>\<open>sin\<close>, \<^verbatim>\<open>cos\<close>, \<^verbatim>\<open>sqrt\<close>,
  \<^verbatim>\<open>log\<close>, \<^verbatim>\<open>log10\<close>, and \<^verbatim>\<open>pow\<close> at the one exponent it is called with.\<close>

fun fsin :: "float \<Rightarrow> float" where
  "fsin (Finite a) = Finite (sin a)"
| "fsin x = NaN"

fun fcos :: "float \<Rightarrow> float" where
  "fcos (Finite a) = Finite (cos a)"
| "fcos x = NaN"

fun fsqrt :: "float \<Rightarrow> float" where
  "fsqrt (Finite a) = (if a < 0 then NaN else Finite (sqrt a))"
| "fsqrt PInf = PInf"
| "fsqrt x = NaN"

fun flog :: "float \<Rightarrow> float" where
  "flog (Finite a) = (if a < 0 then NaN else if a = 0 then NInf else Finite (ln a))"
| "flog PInf = PInf"
| "flog x = NaN"

fun flog10 :: "float \<Rightarrow> float" where
  "flog10 (Finite a) = (if a < 0 then NaN else if a = 0 then NInf else Finite (log 10 a))"
| "flog10 PInf = PInf"
| "flog10 x = NaN"

text \<open>\<^verbatim>\<open>pow(x, 1.0f / 3.0f)\<close>: the exponent is finite, positive and not an integer.\<close>

fun pow_third :: "float \<Rightarrow> float" where
  "pow_third (Finite a) = (if a < 0 then NaN else Finite (root 3 a))"
| "pow_third PInf = PInf"
| "pow_third NInf = PInf"
| "pow_third NaN = NaN"

section \<open>Outcomes\<close>

text \<open>
  The source ends the process with \<^verbatim>\<open>exit(1)\<close> in two places; a negative length given to
  \<^verbatim>\<open>new float[]\<close> ends the call with an exception. A call that ends so returns \<open>Inl\<close> of
  the reason. A loop of the source that might not end is a partial function: \<open>None\<close>
  stands for a call that never returns.
\<close>

datatype error =
    NotPowerOfTwo int        \<comment> \<open>\<^verbatim>\<open>"%d is not a power of two"\<close>, then \<^verbatim>\<open>exit(1)\<close>\<close>
  | CalledWithSize int       \<comment> \<open>\<^verbatim>\<open>"Error: FFT called with size %d"\<close>, then \<^verbatim>\<open>exit(1)\<close>\<close>
  | BadArrayNewLength int    \<comment> \<open>\<^verbatim>\<open>new float[n]\<close> with \<open>n < 0\<close>\<close>

section \<open>Bit reversal\<close>

definition MaxFastBits :: nat where
  "MaxFastBits = 16"

definition IsPowerOfTwo :: "int \<Rightarrow> bool" where
  "IsPowerOfTwo x =
     (if x < 2 then False
      else if x AND (x - 1) \<noteq> 0 then False
      else True)"

partial_function (option) NumberOfBitsNeeded_from :: "int \<Rightarrow> nat \<Rightarrow> nat option" where
  "NumberOfBitsNeeded_from PowerOfTwo i =
     (if PowerOfTwo AND push_bit i 1 \<noteq> 0 then Some i
      else NumberOfBitsNeeded_from PowerOfTwo (i + 1))"

definition NumberOfBitsNeeded :: "int \<Rightarrow> (error + nat) option" where
  "NumberOfBitsNeeded PowerOfTwo =
     (if PowerOfTwo < 2 then Some (Inl (CalledWithSize PowerOfTwo))
      else map_option Inr (NumberOfBitsNeeded_from PowerOfTwo 0))"

definition ReverseBits_step :: "nat \<times> nat \<Rightarrow> nat \<times> nat" where
  "ReverseBits_step = (\<lambda>(rev, index). (push_bit 1 rev OR (index AND 1), drop_bit 1 index))"

definition ReverseBits :: "nat \<Rightarrow> nat \<Rightarrow> nat" where
  "ReverseBits index NumBits = fst ((ReverseBits_step ^^ NumBits) (0, index))"

text \<open>\<^verbatim>\<open>InitFFT\<close> builds the table \<^verbatim>\<open>gFFTBitTable\<close>: row \<open>b - 1\<close> holds the reversals of
  the \<open>b\<close>-bit indices, for \<open>b\<close> from 1 to \<open>MaxFastBits\<close>.\<close>

definition InitFFT :: "nat list list" where
  "InitFFT =
     fst (fold (\<lambda>b (table, len). (table @ [map (\<lambda>i. ReverseBits i b) [0..<len]], push_bit 1 len))
            [1..<MaxFastBits + 1] ([], 2))"

text \<open>The table is built on the first transform and never changed afterwards, so every
  read of \<^verbatim>\<open>gFFTBitTable\<close> sees the value \<^verbatim>\<open>InitFFT\<close> gives it.\<close>

definition gFFTBitTable :: "nat list list" where
  "gFFTBitTable = InitFFT"

definition FastReverseBits :: "nat \<Rightarrow> nat \<Rightarrow> nat" where
  "FastReverseBits i NumBits =
     (if NumBits \<le> MaxFastBits then gFFTBitTable ! (NumBits - 1) ! i
      else ReverseBits i NumBits)"

section \<open>Complex FFT\<close>

text \<open>An array the caller passes is a list; a function that writes into it returns the
  list it leaves behind. \<^verbatim>\<open>ImagIn\<close> may be \<^verbatim>\<open>NULL\<close>, which is \<open>None\<close>.\<close>

definition FFT_scatter ::
  "nat \<Rightarrow> nat \<Rightarrow> float list \<Rightarrow> float list option \<Rightarrow> float list \<times> float list
     \<Rightarrow> float list \<times> float list" where
  "FFT_scatter NumSamples NumBits RealIn ImagIn =
     fold (\<lambda>i (RealOut, ImagOut).
             let j = FastReverseBits i NumBits
             in (RealOut[j := RealIn ! i],
                 ImagOut[j := (case ImagIn of None \<Rightarrow> Finite 0 | Some ImagIn \<Rightarrow> ImagIn ! i)]))
          [0..<NumSamples]"

text \<open>One turn of the innermost loop; the state is \<open>(ar1, ar2, ai1, ai2, RealOut, ImagOut)\<close>.\<close>

definition FFT_butterfly ::
  "float \<Rightarrow> nat \<Rightarrow> nat \<Rightarrow> nat
     \<Rightarrow> float \<times> float \<times> float \<times> float \<times> float list \<times> float list
     \<Rightarrow> float \<times> float \<times> float \<times> float \<times> float list \<times> float list" where
  "FFT_butterfly w BlockEnd i n = (\<lambda>(ar1, ar2, ai1, ai2, RealOut, ImagOut).
     let j = i + n;
         ar0 = w * ar1 - ar2;
         ar2 = ar1;
         ar1 = ar0;
         ai0 = w * ai1 - ai2;
         ai2 = ai1;
         ai1 = ai0;
         k = j + BlockEnd;
         tr = ar0 * RealOut ! k - ai0 * ImagOut ! k;
         ti = ar0 * ImagOut ! k + ai0 * RealOut ! k;
         RealOut = RealOut[k := RealOut ! j - tr];
         ImagOut = ImagOut[k := ImagOut ! j - ti];
         RealOut = RealOut[j := RealOut ! j + tr];
         ImagOut = ImagOut[j := ImagOut ! j + ti]
     in (ar1, ar2, ai1, ai2, RealOut, ImagOut))"

text \<open>The body of the loop over \<open>i\<close>; \<open>(sm2, sm1, cm2, cm1, w)\<close> are the constants of the
  pass.\<close>

definition FFT_block ::
  "float \<times> float \<times> float \<times> float \<times> float \<Rightarrow> nat \<Rightarrow> nat
     \<Rightarrow> float list \<times> float list \<Rightarrow> float list \<times> float list" where
  "FFT_block = (\<lambda>(sm2, sm1, cm2, cm1, w) BlockEnd i (RealOut, ImagOut).
     let ar2 = cm2;
         ar1 = cm1;
         ai2 = sm2;
         ai1 = sm1;
         (ar1, ar2, ai1, ai2, RealOut, ImagOut) =
            fold (FFT_butterfly w BlockEnd i) [0..<BlockEnd] (ar1, ar2, ai1, ai2, RealOut, ImagOut)
     in (RealOut, ImagOut))"

partial_function (option) FFT_blocks ::
  "nat \<Rightarrow> nat \<Rightarrow> nat \<Rightarrow> float \<times> float \<times> float \<times> float \<times> float \<Rightarrow> nat
     \<Rightarrow> float list \<times> float list \<Rightarrow> (float list \<times> float list) option" where
  "FFT_blocks NumSamples BlockSize BlockEnd consts i bufs =
     (if i < NumSamples
      then FFT_blocks NumSamples BlockSize BlockEnd consts (i + BlockSize)
             (FFT_block consts BlockEnd i bufs)
      else Some bufs)"

partial_function (option) FFT_passes ::
  "nat \<Rightarrow> float \<Rightarrow> nat \<Rightarrow> nat \<Rightarrow> float list \<times> float list
     \<Rightarrow> (float list \<times> float list) option" where
  "FFT_passes NumSamples angle_numerator BlockSize BlockEnd bufs =
     (if BlockSize \<le> NumSamples
      then
        (let delta_angle = angle_numerator / float_of_int (int BlockSize);
             sm2 = fsin (Finite (- 2) * delta_angle);
             sm1 = fsin (- delta_angle);
             cm2 = fcos (Finite (- 2) * delta_angle);
             cm1 = fcos (- delta_angle);
             w = Finite 2 * cm1
         in Option.bind (FFT_blocks NumSamples BlockSize BlockEnd (sm2, sm1, cm2, cm1, w) 0 bufs)
              (\<lambda>bufs. FFT_passes NumSamples angle_numerator (push_bit 1 BlockSize) BlockSize bufs))
      else Some bufs)"

definition FFT_normalize :: "nat \<Rightarrow> float list \<times> float list \<Rightarrow> float list \<times> float list" where
  "FFT_normalize NumSamples =
     (let denom = float_of_int (int NumSamples)
      in fold (\<lambda>i (RealOut, ImagOut).
                 let RealOut = RealOut[i := RealOut ! i / denom];
                     ImagOut = ImagOut[i := ImagOut ! i / denom]
                 in (RealOut, ImagOut))
           [0..<NumSamples])"

definition FFT ::
  "int \<Rightarrow> bool \<Rightarrow> float list \<Rightarrow> float list option \<Rightarrow> float list \<Rightarrow> float list
     \<Rightarrow> (error + float list \<times> float list) option" where
  "FFT NumSamples InverseTransform RealIn ImagIn RealOut ImagOut =
     (let angle_numerator = Finite 2 * Finite pi
      in if \<not> IsPowerOfTwo NumSamples then Some (Inl (NotPowerOfTwo NumSamples))
         else
           let angle_numerator = (if InverseTransform then - angle_numerator else angle_numerator)
           in case NumberOfBitsNeeded NumSamples of
                None \<Rightarrow> None
              | Some (Inl e) \<Rightarrow> Some (Inl e)
              | Some (Inr NumBits) \<Rightarrow>
                  (case FFT_passes (nat NumSamples) angle_numerator 2 1
                          (FFT_scatter (nat NumSamples) NumBits RealIn ImagIn (RealOut, ImagOut)) of
                     None \<Rightarrow> None
                   | Some bufs \<Rightarrow>
                       Some (Inr (if InverseTransform then FFT_normalize (nat NumSamples) bufs
                                  else bufs))))"

section \<open>Real FFT and power spectrum\<close>

text \<open>\<^verbatim>\<open>new float[n]\<close>: the values of a fresh array are not determined.\<close>

definition new_float :: "int \<Rightarrow> float list" where
  "new_float n = replicate (nat n) undefined"

text \<open>One turn of the recombination loop of \<^verbatim>\<open>RealFFT\<close>; the state is
  \<open>(wr, wi, RealOut, ImagOut)\<close>.\<close>

definition RealFFT_step ::
  "nat \<Rightarrow> float \<Rightarrow> float \<Rightarrow> nat \<Rightarrow> float \<times> float \<times> float list \<times> float list
     \<Rightarrow> float \<times> float \<times> float list \<times> float list" where
  "RealFFT_step Half wpr wpi i = (\<lambda>(wr, wi, RealOut, ImagOut).
     let i3 = Half - i;
         h1r = Finite 0.5 * (RealOut ! i + RealOut ! i3);
         h1i = Finite 0.5 * (ImagOut ! i - ImagOut ! i3);
         h2r = Finite 0.5 * (ImagOut ! i + ImagOut ! i3);
         h2i = Finite (- 0.5) * (RealOut ! i - RealOut ! i3);
         RealOut = RealOut[i := h1r + wr * h2r - wi * h2i];
         ImagOut = ImagOut[i := h1i + wr * h2i + wi * h2r];
         RealOut = RealOut[i3 := h1r - wr * h2r + wi * h2i];
         ImagOut = ImagOut[i3 := - h1i + wr * h2i + wi * h2r];
         wtemp = wr;
         wr = wtemp * wpr - wi * wpi + wr;
         wi = wi * wpr + wtemp * wpi + wi
     in (wr, wi, RealOut, ImagOut))"

definition RealFFT ::
  "int \<Rightarrow> float list \<Rightarrow> float list \<Rightarrow> float list \<Rightarrow> (error + float list \<times> float list) option" where
  "RealFFT NumSamples RealIn RealOut ImagOut =
     (let Half = NumSamples sdiv 2;
          theta = Finite pi / float_of_int Half
      in if Half < 0 then Some (Inl (BadArrayNewLength Half))
         else
           let tmpReal = new_float Half;
               tmpImag = new_float Half;
               (tmpReal, tmpImag) =
                  fold (\<lambda>i (tmpReal, tmpImag).
                          (tmpReal[i := RealIn ! (2 * i)], tmpImag[i := RealIn ! (2 * i + 1)]))
                    [0..<nat Half] (tmpReal, tmpImag)
           in case FFT Half False tmpReal (Some tmpImag) RealOut ImagOut of
                None \<Rightarrow> None
              | Some (Inl e) \<Rightarrow> Some (Inl e)
              | Some (Inr (RealOut, ImagOut)) \<Rightarrow>
                  let wtemp = fsin (Finite 0.5 * theta);
                      wpr = Finite (- 2) * wtemp * wtemp;
                      wpi = fsin theta;
                      wr = Finite 1 + wpr;
                      wi = wpi;
                      (wr, wi, RealOut, ImagOut) =
                         fold (RealFFT_step (nat Half) wpr wpi) [1..<nat (Half sdiv 2)]
                           (wr, wi, RealOut, ImagOut);
                      h1r = RealOut ! 0;
                      RealOut = RealOut[0 := h1r + ImagOut ! 0];
                      ImagOut = ImagOut[0 := h1r - ImagOut ! 0]
                  in Some (Inr (RealOut, ImagOut)))"

text \<open>One turn of the recombination loop of \<^verbatim>\<open>PowerSpectrum\<close>; the state is
  \<open>(wr, wi, Out)\<close>, and \<open>RealOut\<close>, \<open>ImagOut\<close> are only read.\<close>

definition PowerSpectrum_step ::
  "nat \<Rightarrow> float \<Rightarrow> float \<Rightarrow> float list \<Rightarrow> float list \<Rightarrow> nat \<Rightarrow> float \<times> float \<times> float list
     \<Rightarrow> float \<times> float \<times> float list" where
  "PowerSpectrum_step Half wpr wpi RealOut ImagOut i = (\<lambda>(wr, wi, Out).
     let i3 = Half - i;
         h1r = Finite 0.5 * (RealOut ! i + RealOut ! i3);
         h1i = Finite 0.5 * (ImagOut ! i - ImagOut ! i3);
         h2r = Finite 0.5 * (ImagOut ! i + ImagOut ! i3);
         h2i = Finite (- 0.5) * (RealOut ! i - RealOut ! i3);
         rt = h1r + wr * h2r - wi * h2i;
         it = h1i + wr * h2i + wi * h2r;
         Out = Out[i := rt * rt + it * it];
         rt = h1r - wr * h2r + wi * h2i;
         it = - h1i + wr * h2i + wi * h2r;
         Out = Out[i3 := rt * rt + it * it];
         wtemp = wr;
         wr = wtemp * wpr - wi * wpi + wr;
         wi = wi * wpr + wtemp * wpi + wi
     in (wr, wi, Out))"

definition PowerSpectrum :: "int \<Rightarrow> float list \<Rightarrow> float list \<Rightarrow> (error + float list) option" where
  "PowerSpectrum NumSamples In Out =
     (let Half = NumSamples sdiv 2;
          theta = Finite pi / float_of_int Half
      in if Half < 0 then Some (Inl (BadArrayNewLength Half))
         else
           let tmpReal = new_float Half;
               tmpImag = new_float Half;
               RealOut = new_float Half;
               ImagOut = new_float Half;
               (tmpReal, tmpImag) =
                  fold (\<lambda>i (tmpReal, tmpImag).
                          (tmpReal[i := In ! (2 * i)], tmpImag[i := In ! (2 * i + 1)]))
                    [0..<nat Half] (tmpReal, tmpImag)
           in case FFT Half False tmpReal (Some tmpImag) RealOut ImagOut of
                None \<Rightarrow> None
              | Some (Inl e) \<Rightarrow> Some (Inl e)
              | Some (Inr (RealOut, ImagOut)) \<Rightarrow>
                  let wtemp = fsin (Finite 0.5 * theta);
                      wpr = Finite (- 2) * wtemp * wtemp;
                      wpi = fsin theta;
                      wr = Finite 1 + wpr;
                      wi = wpi;
                      (wr, wi, Out) =
                         fold (PowerSpectrum_step (nat Half) wpr wpi RealOut ImagOut)
                           [1..<nat (Half sdiv 2)] (wr, wi, Out);
                      h1r = RealOut ! 0;
                      rt = h1r + ImagOut ! 0;
                      it = h1r - ImagOut ! 0;
                      Out = Out[0 := rt * rt + it * it];
                      rt = RealOut ! nat (Half sdiv 2);
                      it = ImagOut ! nat (Half sdiv 2);
                      Out = Out[nat (Half sdiv 2) := rt * rt + it * it]
                  in Some (Inr Out))"

section \<open>Window functions\<close>

definition NumWindowFuncs :: int where
  "NumWindowFuncs = 4"

definition WindowFuncName :: "int \<Rightarrow> string" where
  "WindowFuncName whichFunction =
     (if whichFunction = 1 then ''Bartlett''
      else if whichFunction = 2 then ''Hamming''
      else if whichFunction = 3 then ''Hanning''
      else ''Rectangular'')"

definition WindowFunc :: "int \<Rightarrow> int \<Rightarrow> float list \<Rightarrow> float list" where
  "WindowFunc whichFunction NumSamples in_buf =
     (let in_buf =
            (if whichFunction = 1
             then fold (\<lambda>i in_buf.
                          let in_buf = in_buf[i := in_buf ! i *
                                (float_of_int (int i) / float_of_int (NumSamples sdiv 2))];
                              in_buf = in_buf[i + nat (NumSamples sdiv 2) :=
                                in_buf ! (i + nat (NumSamples sdiv 2)) *
                                (Finite 1 - float_of_int (int i) / float_of_int (NumSamples sdiv 2))]
                          in in_buf)
                    [0..<nat (NumSamples sdiv 2)] in_buf
             else in_buf);
          in_buf =
            (if whichFunction = 2
             then fold (\<lambda>i in_buf. in_buf[i := in_buf ! i *
                          (Finite 0.54 - Finite 0.46 *
                             fcos (Finite 2 * Finite pi * float_of_int (int i)
                                     / float_of_int (NumSamples - 1)))])
                    [0..<nat NumSamples] in_buf
             else in_buf);
          in_buf =
            (if whichFunction = 3
             then fold (\<lambda>i in_buf. in_buf[i := in_buf ! i *
                          (Finite 0.50 - Finite 0.50 *
                             fcos (Finite 2 * Finite pi * float_of_int (int i)
                                     / float_of_int (NumSamples - 1)))])
                    [0..<nat NumSamples] in_buf
             else in_buf)
      in in_buf)"

section \<open>Frequency analysis\<close>

text \<open>
  \<^verbatim>\<open>analysefrequencies\<close> receives two pointers into the caller's memory, \<^verbatim>\<open>mData\<close> and
  \<^verbatim>\<open>mProcessed\<close>. The caller's memory is a store from addresses (counted in \<^verbatim>\<open>float\<close>s) to
  values, so that the two arrays may or may not overlap; the arrays the function allocates
  itself are lists of their own.
\<close>

type_synonym heap = "nat \<Rightarrow> float"

record locals =
  mem :: heap
  in_array :: "float list"
  out_array :: "float list"
  out2_array :: "float list"
  start :: int
  windows :: int

text \<open>The body of the \<^verbatim>\<open>while\<close> loop, up to the end of the \<^verbatim>\<open>switch\<close>.\<close>

definition analysefrequencies_block ::
  "int \<Rightarrow> int \<Rightarrow> int \<Rightarrow> nat \<Rightarrow> nat \<Rightarrow> locals \<Rightarrow> (error + locals) option" where
  "analysefrequencies_block alg windowFunc mWindowSize mData mProcessed s =
     (let half = mWindowSize sdiv 2;
          in_buf = fold (\<lambda>i in_buf. in_buf[i := mem s (mData + nat (start s + int i))])
                     [0..<nat mWindowSize] (in_array s);
          in_buf = WindowFunc windowFunc mWindowSize in_buf;
          s = s\<lparr>in_array := in_buf\<rparr>
      in if alg = 0 then
           (case PowerSpectrum mWindowSize in_buf (out_array s) of
              None \<Rightarrow> None
            | Some (Inl e) \<Rightarrow> Some (Inl e)
            | Some (Inr out) \<Rightarrow>
                Some (Inr (s\<lparr>out_array := out,
                             mem := fold (\<lambda>i h. h(mProcessed + i := h (mProcessed + i) + out ! i))
                                      [0..<nat half] (mem s)\<rparr>)))
         else if alg = 1 \<or> alg = 2 \<or> alg = 3 then
           (case FFT mWindowSize False in_buf None (out_array s) (out2_array s) of
              None \<Rightarrow> None
            | Some (Inl e) \<Rightarrow> Some (Inl e)
            | Some (Inr (out, out2)) \<Rightarrow>
                let in_buf = fold (\<lambda>i in_buf.
                                     in_buf[i := (out ! i * out ! i) + (out2 ! i * out2 ! i)])
                               [0..<nat mWindowSize] in_buf;
                    in_buf = (if alg = 1
                              then fold (\<lambda>i in_buf. in_buf[i := fsqrt (in_buf ! i)])
                                     [0..<nat mWindowSize] in_buf
                              else in_buf);
                    in_buf = (if alg = 2 \<or> alg = 3
                              then fold (\<lambda>i in_buf. in_buf[i := pow_third (in_buf ! i)])
                                     [0..<nat mWindowSize] in_buf
                              else in_buf)
                in case FFT mWindowSize False in_buf None out out2 of
                     None \<Rightarrow> None
                   | Some (Inl e) \<Rightarrow> Some (Inl e)
                   | Some (Inr (out, out2)) \<Rightarrow>
                       Some (Inr (s\<lparr>in_array := in_buf, out_array := out, out2_array := out2,
                                    mem := fold (\<lambda>i h. h(mProcessed + i := h (mProcessed + i) + out ! i))
                                             [0..<nat half] (mem s)\<rparr>)))
         else if alg = 4 then
           (case FFT mWindowSize False in_buf None (out_array s) (out2_array s) of
              None \<Rightarrow> None
            | Some (Inl e) \<Rightarrow> Some (Inl e)
            | Some (Inr (out, out2)) \<Rightarrow>
                let in_buf = fold (\<lambda>i in_buf.
                                     in_buf[i := flog ((out ! i * out ! i) + (out2 ! i * out2 ! i))])
                               [0..<nat mWindowSize] in_buf
                in case FFT mWindowSize True in_buf None out out2 of
                     None \<Rightarrow> None
                   | Some (Inl e) \<Rightarrow> Some (Inl e)
                   | Some (Inr (out, out2)) \<Rightarrow>
                       Some (Inr (s\<lparr>in_array := in_buf, out_array := out, out2_array := out2,
                                    mem := fold (\<lambda>i h. h(mProcessed + i := h (mProcessed + i) + out ! i))
                                             [0..<nat half] (mem s)\<rparr>)))
         else Some (Inr s))"

partial_function (option) analysefrequencies_loop ::
  "int \<Rightarrow> int \<Rightarrow> int \<Rightarrow> nat \<Rightarrow> int \<Rightarrow> nat \<Rightarrow> int \<Rightarrow> locals \<Rightarrow> (error + locals) option" where
  "analysefrequencies_loop alg windowFunc mWindowSize mData mDataLen mProcessed hopsize s =
     (if start s + mWindowSize \<le> mDataLen
      then
        (case analysefrequencies_block alg windowFunc mWindowSize mData mProcessed s of
           None \<Rightarrow> None
         | Some (Inl e) \<Rightarrow> Some (Inl e)
         | Some (Inr s) \<Rightarrow>
             analysefrequencies_loop alg windowFunc mWindowSize mData mDataLen mProcessed hopsize
               (s\<lparr>start := start s + hopsize, windows := windows s + 1\<rparr>))
      else Some (Inr s))"

text \<open>The second \<^verbatim>\<open>switch\<close>: the result is the value of \<^verbatim>\<open>mProcessedSize\<close> and the
  caller's memory. No \<^verbatim>\<open>case\<close> assigns \<^verbatim>\<open>mProcessedSize\<close> when \<open>alg\<close> is not one of 0 to 4.\<close>

definition analysefrequencies_finish ::
  "int \<Rightarrow> int \<Rightarrow> nat \<Rightarrow> locals \<Rightarrow> int \<times> heap" where
  "analysefrequencies_finish alg mWindowSize mProcessed s =
     (let half = mWindowSize sdiv 2
      in if alg = 0 then
           (half,
            fold (\<lambda>i h. h(mProcessed + i :=
                    Finite 10 * flog10 (h (mProcessed + i) / float_of_int mWindowSize
                                          / float_of_int (windows s))))
              [0..<nat half] (mem s))
         else if alg = 1 \<or> alg = 2 then
           (half,
            fold (\<lambda>i h. h(mProcessed + i := h (mProcessed + i) / float_of_int (windows s)))
              [0..<nat half] (mem s))
         else if alg = 3 then
           (let h = fold (\<lambda>i h. h(mProcessed + i := h (mProcessed + i) / float_of_int (windows s)))
                      [0..<nat half] (mem s);
                (h, out) =
                   fold (\<lambda>i (h, out).
                           let h = (if h (mProcessed + i) < Finite 0
                                    then h(mProcessed + i := Finite 0) else h);
                               out = out[i := h (mProcessed + i)]
                           in (h, out))
                     [0..<nat half] (h, out_array s);
                h = fold (\<lambda>i h.
                            if i mod 2 = 0
                            then h(mProcessed + i := h (mProcessed + i) - out ! (i div 2))
                            else h(mProcessed + i := h (mProcessed + i)
                                     - ((out ! (i div 2) + out ! (i div 2 + 1)) / Finite 2)))
                      [0..<nat half] h;
                h = fold (\<lambda>i h. if h (mProcessed + i) < Finite 0
                                 then h(mProcessed + i := Finite 0) else h)
                      [0..<nat half] h
            in (half, h))
         else if alg = 4 then
           (half,
            fold (\<lambda>i h. h(mProcessed + i := h (mProcessed + i) / float_of_int (windows s)))
              [0..<nat half] (mem s))
         else (undefined, mem s))"

definition analysefrequencies ::
  "int \<Rightarrow> int \<Rightarrow> int \<Rightarrow> nat \<Rightarrow> int \<Rightarrow> nat \<Rightarrow> heap \<Rightarrow> (error + int \<times> heap) option" where
  "analysefrequencies alg windowFunc windowSize mData mDataLen mProcessed h =
     (if \<not> (windowSize \<ge> 32 \<and> windowSize \<le> 65536 \<and>
             alg \<ge> 0 \<and> alg \<le> 3 \<and> windowFunc \<ge> 0 \<and> windowFunc \<le> 3)
      then Some (Inr (0, h))
      else
        let mWindowSize = windowSize
        in if mDataLen < mWindowSize then Some (Inr (0, h))
           else
             let h = fold (\<lambda>i h. h(mProcessed + i := Finite 0)) [0..<nat mWindowSize] h;
                 half = mWindowSize sdiv 2;
                 s = \<lparr>mem = h, in_array = new_float mWindowSize, out_array = new_float mWindowSize,
                      out2_array = new_float mWindowSize, start = 0, windows = 0\<rparr>;
                 hopsize = half
             in case analysefrequencies_loop alg windowFunc mWindowSize mData mDataLen mProcessed
                       hopsize s of
                  None \<Rightarrow> None
                | Some (Inl e) \<Rightarrow> Some (Inl e)
                | Some (Inr s) \<Rightarrow> Some (Inr (analysefrequencies_finish alg mWindowSize mProcessed s)))"

section \<open>Auxiliary notions for the proofs\<close>

text \<open>The constants \<open>(sm2, sm1, cm2, cm1, w)\<close> of the pass with the given block size.\<close>

definition FFT_consts :: "float \<Rightarrow> nat \<Rightarrow> float \<times> float \<times> float \<times> float \<times> float" where
  "FFT_consts angle_numerator BlockSize =
     (let delta_angle = angle_numerator / float_of_int (int BlockSize)
      in (fsin (Finite (- 2) * delta_angle), fsin (- delta_angle),
          fcos (Finite (- 2) * delta_angle), fcos (- delta_angle),
          Finite 2 * fcos (- delta_angle)))"

text \<open>One pass of the outer loop, as the fold over the starts of its blocks.\<close>

definition FFT_pass ::
  "nat \<Rightarrow> float \<Rightarrow> nat \<Rightarrow> nat \<Rightarrow> float list \<times> float list \<Rightarrow> float list \<times> float list" where
  "FFT_pass NumSamples angle_numerator BlockSize BlockEnd =
     fold (FFT_block (FFT_consts angle_numerator BlockSize) BlockEnd)
       (map (\<lambda>q. q * BlockSize) [0..<(NumSamples + BlockSize - 1) div BlockSize])"

text \<open>The size of the transform that \<^verbatim>\<open>analysefrequencies\<close> asks for: \<^verbatim>\<open>PowerSpectrum\<close>
  transforms half the window, the other algorithms the whole window.\<close>

definition transform_size :: "int \<Rightarrow> int \<Rightarrow> int" where
  "transform_size alg windowSize = (if alg = 0 then windowSize sdiv 2 else windowSize)"

text \<open>The condition of the first test of \<^verbatim>\<open>analysefrequencies\<close>.\<close>

definition valid_parameters :: "int \<Rightarrow> int \<Rightarrow> int \<Rightarrow> bool" where
  "valid_parameters alg windowFunc windowSize \<longleftrightarrow>
     windowSize \<ge> 32 \<and> windowSize \<le> 65536 \<and>
     alg \<ge> 0 \<and> alg \<le> 3 \<and> windowFunc \<ge> 0 \<and> windowFunc \<le> 3"

text \<open>Two stores that differ at most inside the array of \<open>n\<close> values at \<open>q\<close>.\<close>

definition same_outside :: "nat \<Rightarrow> nat \<Rightarrow> heap \<Rightarrow> heap \<Rightarrow> bool" where
  "same_outside q n h h' \<longleftrightarrow> (\<forall>a. \<not> (q \<le> a \<and> a < q + n) \<longrightarrow> h' a = h a)"

text \<open>What a caller sees of a call of \<^verbatim>\<open>analysefrequencies\<close>: the value at an address after
  the call, if the call returned.\<close>

definition memory_after :: "(error + int \<times> heap) option \<Rightarrow> nat \<Rightarrow> float option" where
  "memory_after r a = (case r of Some (Inr (n, h)) \<Rightarrow> Some (h a) | _ \<Rightarrow> None)"

text \<open>A store that holds the same value everywhere.\<close>

definition const_heap :: "float \<Rightarrow> heap" where
  "const_heap v = (\<lambda>a. v)"

text \<open>The values \<open>(ar1, ar2, ai1, ai2)\<close> after \<open>n\<close> turns of the innermost loop, which do
  not depend on the arrays, and the pair \<open>(ar0, ai0)\<close> that turn \<open>n\<close> multiplies with.\<close>

fun FFT_twiddle_state ::
  "float \<times> float \<times> float \<times> float \<times> float \<Rightarrow> nat \<Rightarrow> float \<times> float \<times> float \<times> float" where
  "FFT_twiddle_state (sm2, sm1, cm2, cm1, w) 0 = (cm1, cm2, sm1, sm2)"
| "FFT_twiddle_state (sm2, sm1, cm2, cm1, w) (Suc n) =
     (case FFT_twiddle_state (sm2, sm1, cm2, cm1, w) n of
        (ar1, ar2, ai1, ai2) \<Rightarrow> (w * ar1 - ar2, ar1, w * ai1 - ai2, ai1))"

definition FFT_twiddle :: "float \<times> float \<times> float \<times> float \<times> float \<Rightarrow> nat \<Rightarrow> float \<times> float" where
  "FFT_twiddle c n = (case FFT_twiddle_state c (Suc n) of (ar1, ar2, ai1, ai2) \<Rightarrow> (ar1, ai1))"

text \<open>What one turn of the innermost loop does to the two arrays, at the pair of
  indices \<open>j\<close> and \<open>j + BlockEnd\<close>.\<close>

definition FFT_update ::
  "float \<times> float \<Rightarrow> nat \<Rightarrow> nat \<Rightarrow> float list \<times> float list \<Rightarrow> float list \<times> float list" where
  "FFT_update = (\<lambda>(ar0, ai0) BlockEnd j (RealOut, ImagOut).
     let k = j + BlockEnd;
         tr = ar0 * RealOut ! k - ai0 * ImagOut ! k;
         ti = ar0 * ImagOut ! k + ai0 * RealOut ! k
     in (RealOut[k := RealOut ! j - tr, j := RealOut ! j + tr],
         ImagOut[k := ImagOut ! j - ti, j := ImagOut ! j + ti]))"

text \<open>What a caller sees of the two routines at one bin: the value \<^verbatim>\<open>PowerSpectrum\<close> leaves
  in \<^verbatim>\<open>Out[i]\<close>, and the squared magnitude of what \<^verbatim>\<open>RealFFT\<close> leaves in \<^verbatim>\<open>RealOut[i]\<close> and
  \<^verbatim>\<open>ImagOut[i]\<close>; \<open>None\<close> when the call does not return.\<close>

definition PowerSpectrum_bin :: "int \<Rightarrow> float list \<Rightarrow> float list \<Rightarrow> nat \<Rightarrow> float option" where
  "PowerSpectrum_bin NumSamples In Out i =
     (case PowerSpectrum NumSamples In Out of
        Some (Inr Out) \<Rightarrow> Some (Out ! i)
      | _ \<Rightarrow> None)"

definition RealFFT_power :: "int \<Rightarrow> float list \<Rightarrow> float list \<Rightarrow> float list \<Rightarrow> nat \<Rightarrow> float option" where
  "RealFFT_power NumSamples RealIn RealOut ImagOut i =
     (case RealFFT NumSamples RealIn RealOut ImagOut of
        Some (Inr (RealOut, ImagOut)) \<Rightarrow> Some (RealOut ! i * RealOut ! i + ImagOut ! i * ImagOut ! i)
      | _ \<Rightarrow> None)"

section \<open>Sizes and bit reversal: properties\<close>

lemma sdiv_2_nonneg: "0 \<le> a \<Longrightarrow> a sdiv 2 = a div (2::int)"
  by (simp add: signed_divide_int_def sgn_if)

lemma pow2_and_pred: "(2::int) ^ k AND (2 ^ k - 1) = 0"
proof -
  have "(2::int) ^ k AND (2 ^ k - 1) = take_bit k (2 ^ k)"
    by (simp add: take_bit_eq_mask mask_eq_exp_minus_1)
  then show ?thesis by (simp add: take_bit_of_exp)
qed

lemma IsPowerOfTwo_pow: "0 < k \<Longrightarrow> IsPowerOfTwo (2 ^ k)"
proof -
  assume "0 < k"
  then have "(2::int) ^ 1 \<le> 2 ^ k" by (intro power_increasing) auto
  then show ?thesis by (simp add: IsPowerOfTwo_def pow2_and_pred)
qed

lemma and_pred_zero_pow:
  fixes x :: int
  assumes "1 \<le> x" "x AND (x - 1) = 0"
  shows "\<exists>k. x = 2 ^ k"
  using assms
proof (induction "nat x" arbitrary: x rule: less_induct)
  case less
  show ?case
  proof (cases "x = 1")
    case True
    then have "x = 2 ^ 0" by simp
    then show ?thesis by blast
  next
    case False
    with less.prems have x2: "2 \<le> x" by simp
    show ?thesis
    proof (cases "even x")
      case True
      define y where "y = x div 2"
      have xy: "x = 2 * y" using True by (auto simp: y_def)
      have y1: "1 \<le> y" using x2 xy by simp
      have "(x - 1) div 2 = y - 1" using xy by simp
      then have "x AND (x - 1) = 2 * (y AND (y - 1))"
        using True by (subst and_int_rec) (simp add: y_def)
      with less.prems have "y AND (y - 1) = 0" by simp
      moreover have "nat y < nat x" using xy y1 by simp
      ultimately obtain k where "y = 2 ^ k" using less.hyps[of y] y1 by blast
      then have "x = 2 ^ Suc k" using xy by simp
      then show ?thesis by blast
    next
      case False
      define y where "y = x div 2"
      have xy: "x = 2 * y + 1" using False by (auto simp: y_def elim: oddE)
      have y1: "1 \<le> y" using x2 xy by simp
      have "(x - 1) div 2 = y" using xy by simp
      then have "x AND (x - 1) = 2 * (y AND y)"
        using False by (subst and_int_rec) (simp add: y_def)
      with less.prems y1 show ?thesis by simp
    qed
  qed
qed

lemma IsPowerOfTwo_iff: "IsPowerOfTwo x \<longleftrightarrow> (\<exists>k. 0 < k \<and> x = 2 ^ k)"
proof
  assume h: "IsPowerOfTwo x"
  then have x2: "2 \<le> x" and a: "x AND (x - 1) = 0"
    by (auto simp: IsPowerOfTwo_def split: if_splits)
  then obtain k where k: "x = 2 ^ k" using and_pred_zero_pow[of x] by auto
  with x2 have "0 < k" by (cases k) auto
  with k show "\<exists>k. 0 < k \<and> x = 2 ^ k" by blast
next
  assume "\<exists>k. 0 < k \<and> x = 2 ^ k"
  then show "IsPowerOfTwo x" using IsPowerOfTwo_pow by blast
qed

lemma pow2_and_bit: "(2::int) ^ k AND 2 ^ i = 0 \<longleftrightarrow> i \<noteq> k"
  by (auto simp: bit_eq_iff bit_simps)

lemma NumberOfBitsNeeded_from_pow:
  "i \<le> k \<Longrightarrow> NumberOfBitsNeeded_from (2 ^ k) i = Some k"
proof (induction "k - i" arbitrary: i)
  case 0
  then have "i = k" by simp
  then show ?case by (subst NumberOfBitsNeeded_from.simps) (simp add: pow2_and_bit)
next
  case (Suc d)
  then have "i \<noteq> k" "i + 1 \<le> k" "d = k - (i + 1)" by auto
  with Suc.hyps(1)[of "i + 1"] show ?case
    by (subst NumberOfBitsNeeded_from.simps) (simp add: pow2_and_bit)
qed

lemma NumberOfBitsNeeded_pow:
  "0 < k \<Longrightarrow> NumberOfBitsNeeded (2 ^ k) = Some (Inr k)"
proof -
  assume "0 < k"
  then have "(2::int) ^ 1 \<le> 2 ^ k" by (intro power_increasing) auto
  then show ?thesis by (simp add: NumberOfBitsNeeded_def NumberOfBitsNeeded_from_pow)
qed

lemma ReverseBits_step_eq: "ReverseBits_step (r, x) = (2 * r + x mod 2, x div 2)"
proof -
  have "2 * r OR (1::nat) = 2 * r + 1"
    unfolding or_one_eq by simp
  then have "push_bit 1 r OR (x AND 1) = 2 * r + x mod 2"
    by (cases "even x") (simp_all add: and_one_eq push_bit_eq_mult mod_2_eq_odd mult.commute)
  then show ?thesis by (simp add: ReverseBits_step_def drop_bit_eq_div)
qed

lemma ReverseBits_0 [simp]: "ReverseBits x 0 = 0"
  by (simp add: ReverseBits_def)

lemma ReverseBits_funpow:
  "(ReverseBits_step ^^ n) (r, x) = (r * 2 ^ n + ReverseBits x n, x div 2 ^ n)"
proof (induction n arbitrary: r x)
  case 0
  show ?case by simp
next
  case (Suc n)
  have "ReverseBits x (Suc n) = fst ((ReverseBits_step ^^ n) (x mod 2, x div 2))"
    by (simp add: ReverseBits_def funpow_swap1 ReverseBits_step_eq)
  then have a: "ReverseBits x (Suc n) = (x mod 2) * 2 ^ n + ReverseBits (x div 2) n"
    by (simp add: Suc.IH)
  have "(ReverseBits_step ^^ Suc n) (r, x) = (ReverseBits_step ^^ n) (2 * r + x mod 2, x div 2)"
    by (simp add: funpow_swap1 ReverseBits_step_eq)
  also have "\<dots> = ((2 * r + x mod 2) * 2 ^ n + ReverseBits (x div 2) n, x div 2 div 2 ^ n)"
    by (rule Suc.IH)
  finally show ?case
    by (simp add: a algebra_simps div_mult2_eq)
qed

lemma ReverseBits_Suc_low:
  "ReverseBits x (Suc n) = (x mod 2) * 2 ^ n + ReverseBits (x div 2) n"
proof -
  have "ReverseBits x (Suc n) = fst ((ReverseBits_step ^^ n) (x mod 2, x div 2))"
    by (simp add: ReverseBits_def funpow_swap1 ReverseBits_step_eq)
  then show ?thesis by (simp add: ReverseBits_funpow)
qed

lemma ReverseBits_Suc_high:
  "ReverseBits x (Suc n) = 2 * ReverseBits x n + (x div 2 ^ n) mod 2"
proof -
  have "ReverseBits x (Suc n) = fst (ReverseBits_step ((ReverseBits_step ^^ n) (0, x)))"
    by (simp add: ReverseBits_def)
  then show ?thesis by (simp add: ReverseBits_funpow ReverseBits_step_eq)
qed

lemma ReverseBits_less: "ReverseBits x n < 2 ^ n"
proof (induction n arbitrary: x)
  case 0
  show ?case by simp
next
  case (Suc n)
  have "x mod 2 * 2 ^ n \<le> 1 * 2 ^ n" by (intro mult_le_mono1) simp
  moreover have "ReverseBits (x div 2) n < 2 ^ n" by (rule Suc.IH)
  ultimately show ?case unfolding ReverseBits_Suc_low power_Suc by linarith
qed

lemma ReverseBits_mod: "ReverseBits (x mod 2 ^ n) n = ReverseBits x n"
proof (induction n arbitrary: x)
  case 0
  show ?case by simp
next
  case (Suc n)
  have a: "x mod 2 ^ Suc n mod 2 = x mod 2"
    by (simp add: mod_mod_cancel)
  have b: "x mod 2 ^ Suc n div 2 = (x div 2) mod 2 ^ n"
    by (simp add: mod_mult2_eq)
  show ?case
    by (simp only: ReverseBits_Suc_low a b Suc.IH)
qed

lemma ReverseBits_involution: "x < 2 ^ n \<Longrightarrow> ReverseBits (ReverseBits x n) n = x"
proof (induction n arbitrary: x)
  case 0
  then show ?case by simp
next
  case (Suc n)
  define m where "m = ReverseBits (x div 2) n"
  define y where "y = ReverseBits x (Suc n)"
  have y: "y = (x mod 2) * 2 ^ n + m"
    by (simp add: y_def m_def ReverseBits_Suc_low)
  have m: "m < 2 ^ n" by (simp add: m_def ReverseBits_less)
  have x2: "x div 2 < 2 ^ n" using Suc.prems by auto
  have "y div 2 ^ n = x mod 2" using m by (simp add: y)
  moreover have "y mod 2 ^ n = m" using m by (simp add: y)
  then have "ReverseBits y n = ReverseBits m n"
    using ReverseBits_mod[of y n] by simp
  moreover have "ReverseBits m n = x div 2"
    unfolding m_def using x2 by (rule Suc.IH)
  ultimately have "ReverseBits y (Suc n) = 2 * (x div 2) + x mod 2"
    by (simp add: ReverseBits_Suc_high)
  then show ?case by (simp add: y_def)
qed

lemma InitFFT_fold:
  "fold (\<lambda>b (table, len). (table @ [map (\<lambda>i. ReverseBits i b) [0..<len]], push_bit 1 len))
     [Suc 0..<Suc m] ([], 2)
   = (map (\<lambda>b. map (\<lambda>i. ReverseBits i b) [0..<2 ^ b]) [Suc 0..<Suc m], 2 ^ Suc m)"
  (is "fold ?F _ _ = _")
proof (induction m)
  case 0
  show ?case by simp
next
  case (Suc m)
  have split: "[Suc 0..<Suc (Suc m)] = [Suc 0..<Suc m] @ [Suc m]" by simp
  have "fold ?F [Suc 0..<Suc (Suc m)] ([], 2) = ?F (Suc m) (fold ?F [Suc 0..<Suc m] ([], 2))"
    by (simp only: split fold_append o_apply fold.simps id_apply)
  also have "\<dots> = ?F (Suc m) (map (\<lambda>b. map (\<lambda>i. ReverseBits i b) [0..<2 ^ b]) [Suc 0..<Suc m], 2 ^ Suc m)"
    by (simp only: Suc.IH)
  also have "\<dots> = (map (\<lambda>b. map (\<lambda>i. ReverseBits i b) [0..<2 ^ b]) ([Suc 0..<Suc m] @ [Suc m]), 2 ^ Suc (Suc m))"
    by (simp add: push_bit_eq_mult del: upt_Suc)
  finally show ?case by (simp only: split)
qed

lemma gFFTBitTable_nth:
  assumes "0 < n" "n \<le> MaxFastBits" "i < 2 ^ n"
  shows "gFFTBitTable ! (n - 1) ! i = ReverseBits i n"
proof -
  have tab: "gFFTBitTable = map (\<lambda>b. map (\<lambda>i. ReverseBits i b) [0..<2 ^ b]) [Suc 0..<Suc MaxFastBits]"
    unfolding gFFTBitTable_def InitFFT_def using InitFFT_fold[of MaxFastBits] by simp
  have "n - 1 < length [Suc 0..<Suc MaxFastBits]" using assms by simp
  moreover have "[Suc 0..<Suc MaxFastBits] ! (n - 1) = n" using assms by (simp del: upt_Suc)
  ultimately have "gFFTBitTable ! (n - 1) = map (\<lambda>i. ReverseBits i n) [0..<2 ^ n]"
    unfolding tab by (simp only: nth_map)
  then show ?thesis using assms by simp
qed

lemma FastReverseBits_eq:
  "0 < n \<Longrightarrow> i < 2 ^ n \<Longrightarrow> FastReverseBits i n = ReverseBits i n"
  using gFFTBitTable_nth[of n i] by (simp add: FastReverseBits_def)

lemma upt_0_Suc_Cons: "[0..<Suc m] = 0 # map Suc [0..<m]"
  by (simp add: upt_conv_Cons map_Suc_upt del: upt_Suc)

lemma FFT_blocks_eq:
  assumes B: "0 < B"
  shows "FFT_blocks N B E c i bufs
         = Some (fold (FFT_block c E) (map (\<lambda>q. i + q * B) [0..<(N + B - 1 - i) div B]) bufs)"
proof (induction "N - i" arbitrary: i bufs rule: less_induct)
  case less
  show ?case
  proof (cases "i < N")
    case False
    then have "N + B - 1 - i < B" using B by simp
    then have "(N + B - 1 - i) div B = 0" by simp
    with False show ?thesis by (subst FFT_blocks.simps) simp
  next
    case True
    define m where "m = (N + B - 1 - (i + B)) div B"
    have "N + B - 1 - i = N + B - 1 - (i + B) + B" using True by arith
    then have "(N + B - 1 - i) div B = (N + B - 1 - (i + B) + B) div B" by (rule arg_cong)
    also have "\<dots> = Suc m" unfolding m_def using B by (subst div_add_self2) auto
    finally have cnt: "(N + B - 1 - i) div B = Suc m" .
    have "N - (i + B) < N - i" using True B by simp
    then have rec: "FFT_blocks N B E c (i + B) (FFT_block c E i bufs)
               = Some (fold (FFT_block c E) (map (\<lambda>q. i + B + q * B) [0..<m]) (FFT_block c E i bufs))"
      unfolding m_def by (rule less.hyps)
    have lst: "map (\<lambda>q. i + q * B) [0..<Suc m] = i # map (\<lambda>q. i + B + q * B) [0..<m]"
      by (simp add: upt_0_Suc_Cons comp_def del: upt_Suc)
    show ?thesis
      by (subst FFT_blocks.simps) (simp only: True if_True cnt lst rec fold.simps o_apply)
  qed
qed

lemma FFT_passes_step:
  assumes "0 < B" "B \<le> N"
  shows "FFT_passes N a B E bufs = FFT_passes N a (2 * B) B (FFT_pass N a B E bufs)"
proof -
  have "FFT_blocks N B E c 0 bufs = Some (fold (FFT_block c E) (map (\<lambda>q. q * B) [0..<(N + B - 1) div B]) bufs)" for c
    using FFT_blocks_eq[OF assms(1), of N E c 0 bufs] by simp
  then show ?thesis
    using assms
    by (subst FFT_passes.simps)
       (simp add: FFT_pass_def FFT_consts_def Let_def push_bit_eq_mult mult_2 mult_2_right)
qed

lemma FFT_passes_stop:
  assumes "N < B"
  shows "FFT_passes N a B E bufs = Some bufs"
  using assms by (subst FFT_passes.simps) simp

lemma FFT_passes_eq:
  assumes "0 < s" "s \<le> Suc k"
  shows "FFT_passes (2 ^ k) a (2 ^ s) (2 ^ (s - 1)) bufs
         = Some (fold (\<lambda>s. FFT_pass (2 ^ k) a (2 ^ s) (2 ^ (s - 1))) [s..<Suc k] bufs)"
  using assms
proof (induction "Suc k - s" arbitrary: s bufs)
  case 0
  then have "s = Suc k" by simp
  then show ?case by (simp add: FFT_passes_stop)
next
  case (Suc d)
  then have sk: "s \<le> k" by simp
  then have le: "(2::nat) ^ s \<le> 2 ^ k" by (intro power_increasing) auto
  have "FFT_passes (2 ^ k) a (2 ^ s) (2 ^ (s - 1)) bufs
        = FFT_passes (2 ^ k) a (2 ^ Suc s) (2 ^ (Suc s - 1)) (FFT_pass (2 ^ k) a (2 ^ s) (2 ^ (s - 1)) bufs)"
    using FFT_passes_step[OF _ le] by simp
  also have "\<dots> = Some (fold (\<lambda>s. FFT_pass (2 ^ k) a (2 ^ s) (2 ^ (s - 1))) [Suc s..<Suc k]
                          (FFT_pass (2 ^ k) a (2 ^ s) (2 ^ (s - 1)) bufs))"
    using Suc.hyps(2) sk by (intro Suc.hyps(1)) auto
  also have "\<dots> = Some (fold (\<lambda>s. FFT_pass (2 ^ k) a (2 ^ s) (2 ^ (s - 1))) [s..<Suc k] bufs)"
    using sk by (simp add: upt_conv_Cons del: upt_Suc)
  finally show ?case .
qed


lemma FFT_eq:
  assumes "0 < k"
  shows "FFT (2 ^ k) InverseTransform RealIn ImagIn RealOut ImagOut
         = Some (Inr ((if InverseTransform then FFT_normalize (2 ^ k) else id)
              (fold (\<lambda>s. FFT_pass (2 ^ k) (if InverseTransform then - (Finite 2 * Finite pi) else Finite 2 * Finite pi)
                             (2 ^ s) (2 ^ (s - 1)))
                 [1..<Suc k]
                 (FFT_scatter (2 ^ k) k RealIn ImagIn (RealOut, ImagOut)))))"
proof -
  have n: "nat (2 ^ k) = 2 ^ k" by (simp add: nat_power_eq)
  have p: "FFT_passes (2 ^ k) a 2 1 bufs
           = Some (fold (\<lambda>s. FFT_pass (2 ^ k) a (2 ^ s) (2 ^ (s - 1))) [1..<Suc k] bufs)" for a bufs
    using FFT_passes_eq[of 1 k a bufs] assms by simp
  show ?thesis
    using assms
    by (simp only: FFT_def IsPowerOfTwo_pow NumberOfBitsNeeded_pow n Let_def p)
       (simp del: upt_Suc)
qed

text \<open>
  C7: the rectangular window (id 0) leaves the block unchanged, for every length and
  every block, and so does every id other than 1, 2 and 3.
\<close>

theorem WindowFunc_identity:
  "WindowFunc 0 NumSamples x = x \<and>
   (whichFunction \<notin> {1, 2, 3} \<longrightarrow> WindowFunc whichFunction NumSamples x = x)"
  by (simp add: WindowFunc_def)

theorem WindowFunc_identity_witness:
  "WindowFunc 0 4 [Finite 1, Finite 2, Finite 3, Finite 4] = [Finite 1, Finite 2, Finite 3, Finite 4] \<and>
   (7::int) \<notin> {1, 2, 3} \<and>
   WindowFunc 7 4 [Finite 1, Finite 2, Finite 3, Finite 4] = [Finite 1, Finite 2, Finite 3, Finite 4]"
  using WindowFunc_identity [of 4 "[Finite 1, Finite 2, Finite 3, Finite 4]" 7] by simp

text \<open>
  C4: the transform ends the process at its first check exactly when the size is not a
  power of two with exponent at least 1 (which covers every size below 2), and then no
  output exists; for a power of two from 2 on the check does not end the process. For the
  powers of two from 2 to \<open>2^29\<close>, where the last value of \<^verbatim>\<open>BlockSize\<close>, twice the size, is
  still an \<^verbatim>\<open>int\<close>, the call returns its two output arrays.
\<close>

theorem FFT_fails_iff_not_power_of_two:
  "((\<nexists>k. 0 < k \<and> NumSamples = 2 ^ k) \<longrightarrow>
      FFT NumSamples InverseTransform RealIn ImagIn RealOut ImagOut
        = Some (Inl (NotPowerOfTwo NumSamples))) \<and>
   ((\<exists>k. 0 < k \<and> NumSamples = 2 ^ k) \<longrightarrow>
      FFT NumSamples InverseTransform RealIn ImagIn RealOut ImagOut
        \<noteq> Some (Inl (NotPowerOfTwo NumSamples))) \<and>
   ((\<exists>k. 0 < k \<and> k < 30 \<and> NumSamples = 2 ^ k) \<longrightarrow>
      (\<exists>bufs. FFT NumSamples InverseTransform RealIn ImagIn RealOut ImagOut = Some (Inr bufs)))"
proof (intro conjI impI)
  assume "\<nexists>k. 0 < k \<and> NumSamples = 2 ^ k"
  then have "\<not> IsPowerOfTwo NumSamples" by (simp add: IsPowerOfTwo_iff)
  then show "FFT NumSamples InverseTransform RealIn ImagIn RealOut ImagOut
             = Some (Inl (NotPowerOfTwo NumSamples))"
    by (simp add: FFT_def)
next
  assume "\<exists>k. 0 < k \<and> NumSamples = 2 ^ k"
  then obtain k where "0 < k" "NumSamples = 2 ^ k" by blast
  then show "FFT NumSamples InverseTransform RealIn ImagIn RealOut ImagOut
             \<noteq> Some (Inl (NotPowerOfTwo NumSamples))"
    by (simp add: FFT_eq)
next
  assume "\<exists>k. 0 < k \<and> k < 30 \<and> NumSamples = 2 ^ k"
  then obtain k where "0 < k" "NumSamples = 2 ^ k" by blast
  then show "\<exists>bufs. FFT NumSamples InverseTransform RealIn ImagIn RealOut ImagOut = Some (Inr bufs)"
    by (simp add: FFT_eq)
qed

theorem FFT_fails_iff_not_power_of_two_witness:
  "(\<nexists>k. 0 < k \<and> (6::int) = 2 ^ k) \<and>
   FFT 6 False [] None [] [] = Some (Inl (NotPowerOfTwo 6)) \<and>
   (\<exists>k. 0 < k \<and> (4::int) = 2 ^ k) \<and>
   FFT 4 False [Finite 1, Finite 2, Finite 3, Finite 4] None
       [Finite 0, Finite 0, Finite 0, Finite 0] [Finite 0, Finite 0, Finite 0, Finite 0]
     \<noteq> Some (Inl (NotPowerOfTwo 4)) \<and>
   (\<exists>k. 0 < k \<and> k < 30 \<and> (4::int) = 2 ^ k) \<and>
   (\<exists>bufs. FFT 4 False [Finite 1, Finite 2, Finite 3, Finite 4] None
              [Finite 0, Finite 0, Finite 0, Finite 0] [Finite 0, Finite 0, Finite 0, Finite 0]
            = Some (Inr bufs))"
proof -
  have "\<not> IsPowerOfTwo 6" by (simp add: IsPowerOfTwo_def)
  then have a: "\<nexists>k. 0 < k \<and> (6::int) = 2 ^ k" by (simp add: IsPowerOfTwo_iff)
  have "(4::int) = 2 ^ 2" by simp
  then have b: "\<exists>k. 0 < k \<and> (4::int) = 2 ^ k" by (intro exI[of _ 2]) simp
  have "(0::nat) < 2 \<and> (2::nat) < 30 \<and> (4::int) = 2 ^ 2" by simp
  then have c: "\<exists>k. 0 < k \<and> k < 30 \<and> (4::int) = 2 ^ k" by (rule exI[of _ 2])
  show ?thesis
    using a b c
      FFT_fails_iff_not_power_of_two [of 6 False "[]" None "[]" "[]"]
      FFT_fails_iff_not_power_of_two [of 4 False "[Finite 1, Finite 2, Finite 3, Finite 4]" None
        "[Finite 0, Finite 0, Finite 0, Finite 0]" "[Finite 0, Finite 0, Finite 0, Finite 0]"]
    by blast
qed

section \<open>Loops over arrays\<close>

lemma fold_pair:
  "fold (\<lambda>i (a, b). (f i a, g i b)) xs (a, b) = (fold f xs a, fold g xs b)"
  by (induction xs arbitrary: a b) simp_all

lemma fold_invariant:
  assumes "P s" and "\<And>x s. x \<in> set xs \<Longrightarrow> P s \<Longrightarrow> P (f x s)"
  shows "P (fold f xs s)"
  using assms by (induction xs arbitrary: s) simp_all

lemma fold_upt_Suc: "fold f [0..<Suc n] s = f n (fold f [0..<n] s)"
  by simp

lemma length_fold_update [simp]:
  "length (fold (\<lambda>i xs. xs[p i := v i xs]) is xs) = length xs"
  by (induction "is" arbitrary: xs) simp_all

text \<open>A loop \<^verbatim>\<open>for (i = 0; i < n; i++) a[i] = g(i, a[i])\<close>.\<close>

lemma fold_update_nth:
  "n \<le> length xs \<Longrightarrow>
   fold (\<lambda>i xs. xs[i := g i (xs ! i)]) [0..<n] xs ! j
     = (if j < n then g j (xs ! j) else xs ! j)"
proof (induction n)
  case 0
  show ?case by simp
next
  case (Suc n)
  then show ?case
    by (simp only: fold_upt_Suc) (auto simp: nth_list_update)
qed

lemma fold_update_map:
  "n \<le> length xs \<Longrightarrow>
   fold (\<lambda>i xs. xs[i := g i (xs ! i)]) [0..<n] xs
     = map (\<lambda>i. g i (xs ! i)) [0..<n] @ drop n xs"
  by (rule nth_equalityI) (auto simp: fold_update_nth nth_append)

text \<open>A loop that writes \<open>a[p i] = v i\<close> for \<open>i\<close> below \<open>n\<close>, where \<open>p\<close> permutes the
  indices below \<open>n\<close> and is its own inverse.\<close>

lemma fold_scatter_nth:
  assumes "\<And>i. i < n \<Longrightarrow> p i < n" "\<And>i. i < n \<Longrightarrow> p (p i) = i" "n \<le> length xs"
  shows "m \<le> n \<Longrightarrow>
         fold (\<lambda>i xs. xs[p i := v i]) [0..<m] xs ! j
           = (if j < n \<and> p j < m then v (p j) else xs ! j)"
proof (induction m)
  case 0
  show ?case by simp
next
  case (Suc m)
  then have m: "m < n" "m \<le> n" by simp_all
  have len: "p m < length (fold (\<lambda>i xs. xs[p i := v i]) [0..<m] xs)"
    using assms(1)[OF m(1)] assms(3) by simp
  show ?case
  proof (cases "j = p m")
    case True
    then have "p j = m" "j < n" using assms(1,2)[OF m(1)] by simp_all
    then show ?thesis using len True by (simp only: fold_upt_Suc) simp
  next
    case False
    then have "p j \<noteq> m" if "j < n" using assms(2)[OF that] by auto
    then have "(j < n \<and> p j < Suc m) = (j < n \<and> p j < m)" by (auto simp: less_Suc_eq)
    then show ?thesis using False Suc.IH[OF m(2)]
      by (simp only: fold_upt_Suc) simp
  qed
qed

lemma fold_scatter_map:
  assumes "\<And>i. i < n \<Longrightarrow> p i < n" "\<And>i. i < n \<Longrightarrow> p (p i) = i" "n \<le> length xs"
  shows "fold (\<lambda>i xs. xs[p i := v i]) [0..<n] xs = map (\<lambda>j. v (p j)) [0..<n] @ drop n xs"
proof (rule nth_equalityI)
  show "length (fold (\<lambda>i xs. xs[p i := v i]) [0..<n] xs)
        = length (map (\<lambda>j. v (p j)) [0..<n] @ drop n xs)"
    using assms(3) by simp
next
  fix j assume "j < length (fold (\<lambda>i xs. xs[p i := v i]) [0..<n] xs)"
  then have j: "j < length xs" by simp
  show "fold (\<lambda>i xs. xs[p i := v i]) [0..<n] xs ! j
        = (map (\<lambda>j. v (p j)) [0..<n] @ drop n xs) ! j"
    using j assms(1,3) fold_scatter_nth[OF assms, of n v j]
    by (auto simp: nth_append)
qed

text \<open>A loop over a region of the caller's memory.\<close>

lemma fold_heap_update:
  "fold (\<lambda>i h. h(q + i := g i (h (q + i)))) [0..<n] h
     = (\<lambda>a. if q \<le> a \<and> a < q + n then g (a - q) (h a) else h a)"
proof (induction n)
  case 0
  show ?case by (auto simp: fun_eq_iff)
next
  case (Suc n)
  show ?case
    by (simp only: fold_upt_Suc Suc.IH) (auto simp: fun_eq_iff)
qed

lemma FFT_scatter_eq:
  assumes "0 < k" "2 ^ k \<le> length RealOut" "2 ^ k \<le> length ImagOut"
  shows "FFT_scatter (2 ^ k) k RealIn ImagIn (RealOut, ImagOut)
         = (map (\<lambda>j. RealIn ! ReverseBits j k) [0..<2 ^ k] @ drop (2 ^ k) RealOut,
            map (\<lambda>j. case ImagIn of None \<Rightarrow> Finite 0 | Some ImagIn \<Rightarrow> ImagIn ! ReverseBits j k)
              [0..<2 ^ k] @ drop (2 ^ k) ImagOut)"
proof -
  let ?v = "\<lambda>i. case ImagIn of None \<Rightarrow> Finite 0 | Some ImagIn \<Rightarrow> ImagIn ! i"
  have "FFT_scatter (2 ^ k) k RealIn ImagIn (RealOut, ImagOut)
        = fold (\<lambda>i (RealOut, ImagOut).
                  (RealOut[ReverseBits i k := RealIn ! i], ImagOut[ReverseBits i k := ?v i]))
            [0..<2 ^ k] (RealOut, ImagOut)"
    unfolding FFT_scatter_def
    by (rule fold_cong) (auto simp: FastReverseBits_eq assms(1) Let_def)
  also have "\<dots> = (fold (\<lambda>i xs. xs[ReverseBits i k := RealIn ! i]) [0..<2 ^ k] RealOut,
                   fold (\<lambda>i xs. xs[ReverseBits i k := ?v i]) [0..<2 ^ k] ImagOut)"
    by (rule fold_pair)
  finally show ?thesis
    using assms(2,3)
    by (simp add: fold_scatter_map[where p = "\<lambda>i. ReverseBits i k"]
          ReverseBits_less ReverseBits_involution)
qed

section \<open>Outcomes of the transforms\<close>

lemma FFT_fails: "\<not> IsPowerOfTwo N \<Longrightarrow> FFT N inv_t RealIn ImagIn RealOut ImagOut = Some (Inl (NotPowerOfTwo N))"
  by (simp add: FFT_def)

lemma FFT_returns:
  "IsPowerOfTwo N \<Longrightarrow> \<exists>bufs. FFT N inv_t RealIn ImagIn RealOut ImagOut = Some (Inr bufs)"
  by (auto simp: IsPowerOfTwo_iff FFT_eq)

lemma FFT_butterfly_length:
  "FFT_butterfly w E i n (ar1, ar2, ai1, ai2, R, I) = (ar1', ar2', ai1', ai2', R', I')
   \<Longrightarrow> length R' = length R \<and> length I' = length I"
  by (auto simp: FFT_butterfly_def Let_def)

lemma FFT_block_length:
  "FFT_block c E i (R, I) = (R', I') \<Longrightarrow> length R' = length R \<and> length I' = length I"
proof -
  assume a: "FFT_block c E i (R, I) = (R', I')"
  obtain sm2 sm1 cm2 cm1 w where c: "c = (sm2, sm1, cm2, cm1, w)" by (cases c) auto
  let ?P = "\<lambda>(ar1, ar2, ai1, ai2, R', I'). length (R' :: float list) = length R \<and> length (I' :: float list) = length I"
  have "?P (fold (FFT_butterfly w E i) [0..<E] (cm1, cm2, sm1, sm2, R, I))"
    by (rule fold_invariant) (auto simp: FFT_butterfly_def Let_def)
  with a show ?thesis by (auto simp: FFT_block_def c Let_def split: prod.splits)
qed

lemma FFT_pass_length:
  "FFT_pass N a B E (R, I) = (R', I') \<Longrightarrow> length R' = length R \<and> length I' = length I"
proof -
  assume a: "FFT_pass N a B E (R, I) = (R', I')"
  let ?P = "\<lambda>(R', I'). length (R' :: float list) = length R \<and> length (I' :: float list) = length I"
  have "?P (FFT_pass N a B E (R, I))"
    unfolding FFT_pass_def
    by (rule fold_invariant) (auto dest: FFT_block_length)
  with a show ?thesis by simp
qed

lemma FFT_scatter_length:
  "FFT_scatter N n RealIn ImagIn (R, I) = (R', I') \<Longrightarrow> length R' = length R \<and> length I' = length I"
proof -
  assume a: "FFT_scatter N n RealIn ImagIn (R, I) = (R', I')"
  let ?P = "\<lambda>(R', I'). length (R' :: float list) = length R \<and> length (I' :: float list) = length I"
  have "?P (FFT_scatter N n RealIn ImagIn (R, I))"
    unfolding FFT_scatter_def
    by (rule fold_invariant) (auto simp: Let_def)
  with a show ?thesis by simp
qed

lemma FFT_normalize_length:
  "FFT_normalize N (R, I) = (R', I') \<Longrightarrow> length R' = length R \<and> length I' = length I"
proof -
  assume a: "FFT_normalize N (R, I) = (R', I')"
  let ?P = "\<lambda>(R', I'). length (R' :: float list) = length R \<and> length (I' :: float list) = length I"
  have "?P (FFT_normalize N (R, I))"
    unfolding FFT_normalize_def Let_def
    by (rule fold_invariant) (auto simp: Let_def)
  with a show ?thesis by simp
qed

lemma FFT_length:
  assumes "FFT N inv_t RealIn ImagIn RealOut ImagOut = Some (Inr (R', I'))"
  shows "length R' = length RealOut \<and> length I' = length ImagOut"
proof -
  have p: "IsPowerOfTwo N" using assms FFT_fails[of N] by (cases "IsPowerOfTwo N") auto
  then obtain k where k: "0 < k" "N = 2 ^ k" by (auto simp: IsPowerOfTwo_iff)
  let ?P = "\<lambda>(R', I'). length (R' :: float list) = length RealOut \<and> length (I' :: float list) = length ImagOut"
  let ?a = "if inv_t then - (Finite 2 * Finite pi) else Finite 2 * Finite pi"
  have s: "?P (FFT_scatter (2 ^ k) k RealIn ImagIn (RealOut, ImagOut))"
    using FFT_scatter_length by (auto split: prod.splits)
  have f: "?P (fold (\<lambda>s. FFT_pass (2 ^ k) ?a (2 ^ s) (2 ^ (s - 1))) [1..<Suc k]
                (FFT_scatter (2 ^ k) k RealIn ImagIn (RealOut, ImagOut)))"
    by (rule fold_invariant[where P = ?P, OF s]) (auto dest: FFT_pass_length)
  show ?thesis
    using assms f unfolding k(2) FFT_eq[OF k(1)]
    by (cases inv_t) (auto dest: FFT_normalize_length split: prod.splits)
qed

lemma PowerSpectrum_fails:
  assumes "0 \<le> N" "\<not> IsPowerOfTwo (N sdiv 2)"
  shows "PowerSpectrum N In Out = Some (Inl (NotPowerOfTwo (N sdiv 2)))"
proof -
  have "\<not> N sdiv 2 < 0" using assms(1) by (simp add: sdiv_2_nonneg)
  then show ?thesis
    using assms(2) by (simp add: PowerSpectrum_def Let_def FFT_fails split: prod.splits)
qed

lemma PowerSpectrum_step_length:
  "PowerSpectrum_step H wpr wpi R I i (wr, wi, Out) = (wr', wi', Out') \<Longrightarrow> length Out' = length Out"
  by (auto simp: PowerSpectrum_step_def Let_def)

lemma PowerSpectrum_fold_length:
  "length (snd (snd (fold (PowerSpectrum_step H wpr wpi R I) xs (wr, wi, Out)))) = length Out"
proof -
  let ?P = "\<lambda>(wr, wi, Out'). length (Out' :: float list) = length Out"
  have "?P (fold (PowerSpectrum_step H wpr wpi R I) xs (wr, wi, Out))"
    by (rule fold_invariant) (auto dest: PowerSpectrum_step_length)
  then show ?thesis by (simp add: case_prod_beta)
qed

lemma PowerSpectrum_returns:
  assumes "IsPowerOfTwo (N sdiv 2)"
  shows "\<exists>Out'. PowerSpectrum N In Out = Some (Inr Out') \<and> length Out' = length Out"
proof -
  define Half where "Half = N sdiv 2"
  have h: "\<not> Half < 0" using assms by (auto simp: Half_def IsPowerOfTwo_def split: if_splits)
  define tmp where "tmp = fold (\<lambda>i (tmpReal, tmpImag).
                          (tmpReal[i := In ! (2 * i)], tmpImag[i := In ! (2 * i + 1)]))
                    [0..<nat Half] (new_float Half, new_float Half)"
  obtain R I where f: "FFT Half False (fst tmp) (Some (snd tmp)) (new_float Half) (new_float Half) = Some (Inr (R, I))"
    using FFT_returns[OF assms[folded Half_def]] by (metis surj_pair)
  show ?thesis
    using h f
    unfolding PowerSpectrum_def Half_def[symmetric] Let_def tmp_def[symmetric]
    by (simp add: case_prod_beta PowerSpectrum_fold_length)
qed

lemma PowerSpectrum_not_None: "PowerSpectrum N In Out \<noteq> None"
proof (cases "N sdiv 2 < 0")
  case True
  then show ?thesis by (simp add: PowerSpectrum_def Let_def)
next
  case False
  show ?thesis
  proof (cases "IsPowerOfTwo (N sdiv 2)")
    case True
    then show ?thesis using PowerSpectrum_returns[OF True, of In Out] by auto
  next
    case nop: False
    then show ?thesis using False
      by (simp add: PowerSpectrum_def Let_def FFT_fails split: prod.splits)
  qed
qed

section \<open>The framing loop\<close>

lemma analysefrequencies_block_fails:
  assumes "0 \<le> W" "0 \<le> alg" "alg \<le> 3" "\<not> IsPowerOfTwo (transform_size alg W)"
  shows "analysefrequencies_block alg wfn W p q s = Some (Inl (NotPowerOfTwo (transform_size alg W)))"
proof (cases "alg = 0")
  case True
  then show ?thesis
    using assms PowerSpectrum_fails[of W]
    by (simp add: analysefrequencies_block_def Let_def transform_size_def)
next
  case False
  then have "alg = 1 \<or> alg = 2 \<or> alg = 3" using assms by arith
  then show ?thesis
    using assms False
    by (simp add: analysefrequencies_block_def Let_def transform_size_def FFT_fails)
qed

lemma analysefrequencies_block_returns:
  assumes "0 \<le> alg" "alg \<le> 3" "IsPowerOfTwo (transform_size alg W)"
  shows "\<exists>s'. analysefrequencies_block alg wfn W p q s = Some (Inr s')
              \<and> start s' = start s \<and> windows s' = windows s
              \<and> length (out_array s') = length (out_array s)
              \<and> (\<forall>a. \<not> (q \<le> a \<and> a < q + nat (W sdiv 2)) \<longrightarrow> mem s' a = mem s a)"
proof (cases "alg = 0")
  case True
  define inb where "inb = WindowFunc wfn W (fold (\<lambda>i in_buf. in_buf[i := mem s (p + nat (start s + int i))])
                     [0..<nat W] (in_array s))"
  obtain out' where "PowerSpectrum W inb (out_array s) = Some (Inr out')"
      "length out' = length (out_array s)"
    using PowerSpectrum_returns[of W inb "out_array s"] assms(3) True
    by (auto simp: transform_size_def)
  then show ?thesis
    using True
    by (simp add: analysefrequencies_block_def Let_def inb_def[symmetric]
          fold_heap_update[where g = "\<lambda>i v. v + out' ! i"])
next
  case False
  then have alg: "alg = 1 \<or> alg = 2 \<or> alg = 3" using assms by arith
  have W: "IsPowerOfTwo W" using assms(3) False by (simp add: transform_size_def)
  define inb where "inb = WindowFunc wfn W (fold (\<lambda>i in_buf. in_buf[i := mem s (p + nat (start s + int i))])
                     [0..<nat W] (in_array s))"
  obtain o1 o2 where f1: "FFT W False inb None (out_array s) (out2_array s) = Some (Inr (o1, o2))"
    using FFT_returns[OF W] by (metis surj_pair)
  have l1: "length o1 = length (out_array s)" using FFT_length[OF f1] by simp
  define inb1 where "inb1 = fold (\<lambda>i in_buf. in_buf[i := (o1 ! i * o1 ! i) + (o2 ! i * o2 ! i)])
                               [0..<nat W] inb"
  define inb2 where "inb2 = (if alg = 1 then fold (\<lambda>i in_buf. in_buf[i := fsqrt (in_buf ! i)])
                                     [0..<nat W] inb1 else inb1)"
  define inb3 where "inb3 = (if alg = 2 \<or> alg = 3
                              then fold (\<lambda>i in_buf. in_buf[i := pow_third (in_buf ! i)])
                                     [0..<nat W] inb2
                              else inb2)"
  obtain o3 o4 where f2: "FFT W False inb3 None o1 o2 = Some (Inr (o3, o4))"
    using FFT_returns[OF W] by (metis surj_pair)
  have l2: "length o3 = length o1" using FFT_length[OF f2] by simp
  have "analysefrequencies_block alg wfn W p q s
        = Some (Inr (s\<lparr>in_array := inb3, out_array := o3, out2_array := o4,
                       mem := fold (\<lambda>i h. h(q + i := h (q + i) + o3 ! i)) [0..<nat (W sdiv 2)] (mem s)\<rparr>))"
    using alg False f2
    unfolding analysefrequencies_block_def Let_def inb_def[symmetric] inb3_def inb2_def inb1_def
    by (auto simp: f1)
  then show ?thesis
    using l1 l2 by (simp add: fold_heap_update[where g = "\<lambda>i v. v + o3 ! i"])
qed

lemma analysefrequencies_loop_rule:
  assumes hop: "0 < hopsize"
    and step: "\<And>s. I s \<Longrightarrow> start s + W \<le> L \<Longrightarrow>
                 \<exists>s'. analysefrequencies_block alg wfn W p q s = Some (Inr s')
                      \<and> start s' = start s
                      \<and> I (s'\<lparr>start := start s' + hopsize, windows := windows s' + 1\<rparr>)"
    and init: "I s0"
  shows "\<exists>s. analysefrequencies_loop alg wfn W p L q hopsize s0 = Some (Inr s)
             \<and> I s \<and> \<not> start s + W \<le> L"
  using init
proof (induction "nat (L - W - start s0 + hopsize)" arbitrary: s0 rule: less_induct)
  case less
  show ?case
  proof (cases "start s0 + W \<le> L")
    case False
    then show ?thesis using less.prems
      by (subst analysefrequencies_loop.simps) simp
  next
    case True
    obtain s' where s': "analysefrequencies_block alg wfn W p q s0 = Some (Inr s')"
        "start s' = start s0" "I (s'\<lparr>start := start s' + hopsize, windows := windows s' + 1\<rparr>)"
      using step[OF less.prems True] by blast
    let ?s = "s'\<lparr>start := start s' + hopsize, windows := windows s' + 1\<rparr>"
    have "nat (L - W - start ?s + hopsize) < nat (L - W - start s0 + hopsize)"
      using True hop s'(2) by simp
    from less.hyps[OF this s'(3)]
    obtain s where "analysefrequencies_loop alg wfn W p L q hopsize ?s = Some (Inr s)"
        "I s" "\<not> start s + W \<le> L" by blast
    then show ?thesis
      using True s'(1)
      by (subst analysefrequencies_loop.simps) simp
  qed
qed

lemma analysefrequencies_loop_fails:
  assumes "0 \<le> W" "0 \<le> alg" "alg \<le> 3" "\<not> IsPowerOfTwo (transform_size alg W)"
    "start s + W \<le> L"
  shows "analysefrequencies_loop alg wfn W p L q hopsize s
         = Some (Inl (NotPowerOfTwo (transform_size alg W)))"
  using assms(5) analysefrequencies_block_fails[OF assms(1-4)]
  by (subst analysefrequencies_loop.simps) simp

lemma same_outside_refl [simp]: "same_outside q n h h"
  by (simp add: same_outside_def)

lemma same_outside_trans:
  "same_outside q n h h' \<Longrightarrow> same_outside q n h' h'' \<Longrightarrow> same_outside q n h h''"
  by (simp add: same_outside_def)

lemma same_outside_mono:
  "same_outside q m h h' \<Longrightarrow> m \<le> n \<Longrightarrow> same_outside q n h h'"
  by (auto simp: same_outside_def)

lemma same_outside_fold:
  assumes "\<And>i h. i \<in> set xs \<Longrightarrow> same_outside q n h (f i h)"
  shows "same_outside q n h (fold f xs h)"
proof -
  have "same_outside q n h (fold f xs h')" if "same_outside q n h h'" for h'
    using that assms
  proof (induction xs arbitrary: h')
    case Nil
    then show ?case by simp
  next
    case (Cons x xs)
    have "same_outside q n h (f x h')"
      using Cons.prems(1) Cons.prems(2)[of x h'] by (auto intro: same_outside_trans)
    then show ?case using Cons.IH Cons.prems(2) by simp
  qed
  then show ?thesis by simp
qed

lemma same_outside_upd: "i < n \<Longrightarrow> same_outside q n h (h(q + i := v))"
  by (auto simp: same_outside_def)

lemma fold_fst:
  "fst (fold (\<lambda>i (h, out). (H i h, G i h out)) xs (h, out)) = fold H xs h"
  by (induction xs arbitrary: h out) simp_all

lemma analysefrequencies_finish_frame:
  "same_outside q (nat (W sdiv 2)) (mem s) (snd (analysefrequencies_finish alg W q s))"
proof -
  let ?n = "nat (W sdiv 2)"
  have a: "same_outside q ?n h (fold (\<lambda>i h. h(q + i := g i h)) [0..<?n] h)" for g h
    by (rule same_outside_fold) (simp add: same_outside_upd)
  have b: "same_outside q ?n h (fold (\<lambda>i h. if c i h then h(q + i := g i h) else h) [0..<?n] h)"
    for g c h
    by (rule same_outside_fold) (simp add: same_outside_upd)
  have c: "same_outside q ?n h (fold (\<lambda>i h. if c i then h(q + i := g i h) else h(q + i := g' i h)) [0..<?n] h)"
    for g g' c h
    by (rule same_outside_fold) (simp add: same_outside_upd)
  show ?thesis
  proof (cases "alg = 3")
    case True
    show ?thesis
      apply (simp add: analysefrequencies_finish_def Let_def case_prod_beta True)
      apply (rule same_outside_trans[OF _ b])
      apply (rule same_outside_trans[OF _ c])
      apply (simp only: fold_fst)
      apply (rule same_outside_trans[OF _ b])
      apply (rule a)
      done
  next
    case False
    then show ?thesis
      unfolding analysefrequencies_finish_def Let_def
      by (auto intro: a)
  qed
qed

lemma analysefrequencies_finish_length:
  "0 \<le> alg \<Longrightarrow> alg \<le> 3 \<Longrightarrow> fst (analysefrequencies_finish alg W q s) = W sdiv 2"
  by (auto simp: analysefrequencies_finish_def Let_def case_prod_beta)

lemma zero_fill_eq:
  "fold (\<lambda>i h. h(q + i := Finite 0)) [0..<n] h
   = (\<lambda>a. if q \<le> a \<and> a < q + n then Finite 0 else h a)"
  using fold_heap_update[where g = "\<lambda>i v. Finite 0"] by simp

lemma zero_fill_same_outside:
  "same_outside q n h h2 \<Longrightarrow>
   fold (\<lambda>i h. h(q + i := Finite 0)) [0..<n] h2 = fold (\<lambda>i h. h(q + i := Finite 0)) [0..<n] h"
  by (auto simp: zero_fill_eq same_outside_def fun_eq_iff)

lemma valid_transform_size:
  "valid_parameters alg wfn W \<Longrightarrow> 0 \<le> W \<and> 0 \<le> alg \<and> alg \<le> 3 \<and> 16 \<le> W sdiv 2"
  by (auto simp: valid_parameters_def sdiv_2_nonneg)

lemma analysefrequencies_loop_returns:
  assumes v: "valid_parameters alg wfn W" and L: "W \<le> L"
    and p2: "IsPowerOfTwo (transform_size alg W)"
    and s0: "start s0 = 0" "windows s0 = 0"
  shows "\<exists>s. analysefrequencies_loop alg wfn W p L q (W sdiv 2) s0 = Some (Inr s)
             \<and> 1 \<le> windows s
             \<and> same_outside q (nat (W sdiv 2)) (mem s0) (mem s)
             \<and> length (out_array s) = length (out_array s0)"
proof -
  note vt = valid_transform_size[OF v]
  define I where "I s \<longleftrightarrow> start s = (W sdiv 2) * windows s \<and> 0 \<le> windows s
                      \<and> same_outside q (nat (W sdiv 2)) (mem s0) (mem s)
                      \<and> length (out_array s) = length (out_array s0)" for s :: locals
  have hop: "0 < W sdiv 2" using vt by simp
  have step: "\<exists>s'. analysefrequencies_block alg wfn W p q s = Some (Inr s')
                   \<and> start s' = start s
                   \<and> I (s'\<lparr>start := start s' + W sdiv 2, windows := windows s' + 1\<rparr>)"
    if "I s" for s
  proof -
    obtain s' where s': "analysefrequencies_block alg wfn W p q s = Some (Inr s')"
        "start s' = start s" "windows s' = windows s"
        "length (out_array s') = length (out_array s)"
        "\<forall>a. \<not> (q \<le> a \<and> a < q + nat (W sdiv 2)) \<longrightarrow> mem s' a = mem s a"
      using analysefrequencies_block_returns[of alg W wfn p q s] vt p2 by blast
    have "same_outside q (nat (W sdiv 2)) (mem s) (mem s')"
      using s'(5) by (simp add: same_outside_def)
    then have "same_outside q (nat (W sdiv 2)) (mem s0) (mem s')"
      using that by (auto simp: I_def intro: same_outside_trans)
    then have "I (s'\<lparr>start := start s' + W sdiv 2, windows := windows s' + 1\<rparr>)"
      using that s'(2,3,4) by (simp add: I_def algebra_simps)
    with s'(1,2) show ?thesis by blast
  qed
  have "I s0" using s0 by (simp add: I_def)
  from analysefrequencies_loop_rule[of "W sdiv 2" I W L alg wfn p q s0, OF hop step this]
  obtain s where s: "analysefrequencies_loop alg wfn W p L q (W sdiv 2) s0 = Some (Inr s)"
      "I s" "\<not> start s + W \<le> L" by blast
  have "0 < start s" using s(3) L by simp
  then have "0 < (W sdiv 2) * windows s" using s(2) by (simp add: I_def)
  then have "0 < windows s" using hop by (simp add: zero_less_mult_iff)
  then show ?thesis using s(1,2) by (auto simp: I_def)
qed



section \<open>The result of the analysis\<close>

lemma analysefrequencies_invalid:
  "\<not> valid_parameters alg wfn W \<or> L < W \<Longrightarrow> analysefrequencies alg wfn W p L q h = Some (Inr (0, h))"
  by (auto simp: analysefrequencies_def valid_parameters_def Let_def)

lemma analysefrequencies_valid:
  "valid_parameters alg wfn W \<Longrightarrow> \<not> L < W \<Longrightarrow>
   analysefrequencies alg wfn W p L q h
   = (case analysefrequencies_loop alg wfn W p L q (W sdiv 2)
             \<lparr>mem = fold (\<lambda>i h. h(q + i := Finite 0)) [0..<nat W] h,
              in_array = new_float W, out_array = new_float W, out2_array = new_float W,
              start = 0, windows = 0\<rparr> of
        None \<Rightarrow> None
      | Some (Inl e) \<Rightarrow> Some (Inl e)
      | Some (Inr s) \<Rightarrow> Some (Inr (analysefrequencies_finish alg W q s)))"
  by (simp add: analysefrequencies_def valid_parameters_def Let_def)

lemma analysefrequencies_fails:
  assumes "valid_parameters alg wfn W" "\<not> L < W" "\<not> IsPowerOfTwo (transform_size alg W)"
  shows "analysefrequencies alg wfn W p L q h = Some (Inl (NotPowerOfTwo (transform_size alg W)))"
proof -
  have "analysefrequencies_loop alg wfn W p L q (W sdiv 2)
             \<lparr>mem = fold (\<lambda>i h. h(q + i := Finite 0)) [0..<nat W] h,
              in_array = new_float W, out_array = new_float W, out2_array = new_float W,
              start = 0, windows = 0\<rparr> = Some (Inl (NotPowerOfTwo (transform_size alg W)))"
    using valid_transform_size[OF assms(1)] assms(2,3)
    by (intro analysefrequencies_loop_fails) auto
  then show ?thesis by (simp add: analysefrequencies_valid[OF assms(1,2)])
qed

lemma analysefrequencies_returns:
  assumes "valid_parameters alg wfn W" "\<not> L < W" "IsPowerOfTwo (transform_size alg W)"
  shows "\<exists>h'. analysefrequencies alg wfn W p L q h = Some (Inr (W sdiv 2, h'))
              \<and> same_outside q (nat W) h h'"
proof -
  let ?h0 = "fold (\<lambda>i h. h(q + i := Finite 0)) [0..<nat W] h"
  let ?s0 = "\<lparr>mem = ?h0, in_array = new_float W, out_array = new_float W,
              out2_array = new_float W, start = 0, windows = 0\<rparr>"
  note vt = valid_transform_size[OF assms(1)]
  obtain s where s: "analysefrequencies_loop alg wfn W p L q (W sdiv 2) ?s0 = Some (Inr s)"
      "same_outside q (nat (W sdiv 2)) (mem ?s0) (mem s)"
    using analysefrequencies_loop_returns[OF assms(1) _ assms(3), of L ?s0 p q] assms(2) by auto
  have le: "nat (W sdiv 2) \<le> nat W" using vt by (simp add: sdiv_2_nonneg)
  have "same_outside q (nat W) h ?h0"
    by (simp add: zero_fill_eq same_outside_def)
  moreover have "same_outside q (nat W) ?h0 (mem s)"
    using s(2) le by (auto intro: same_outside_mono)
  moreover have "same_outside q (nat W) (mem s) (snd (analysefrequencies_finish alg W q s))"
    using analysefrequencies_finish_frame le by (rule same_outside_mono)
  ultimately have "same_outside q (nat W) h (snd (analysefrequencies_finish alg W q s))"
    by (blast intro: same_outside_trans)
  moreover have "analysefrequencies alg wfn W p L q h = Some (Inr (analysefrequencies_finish alg W q s))"
    by (simp add: analysefrequencies_valid[OF assms(1,2)] s(1))
  moreover have "fst (analysefrequencies_finish alg W q s) = W sdiv 2"
    using vt by (simp add: analysefrequencies_finish_length)
  ultimately show ?thesis
    by (cases "analysefrequencies_finish alg W q s") auto
qed

lemma analysefrequencies_overwrites:
  assumes "valid_parameters alg wfn W" "\<not> L < W" "same_outside q (nat W) h h2"
  shows "analysefrequencies alg wfn W p L q h2 = analysefrequencies alg wfn W p L q h"
  by (simp add: analysefrequencies_valid[OF assms(1,2)] zero_fill_same_outside[OF assms(3)])

text \<open>
  C3, as the code has it: the call returns length 0, and leaves the caller's memory as it
  was, when a parameter is outside its range or there are fewer samples than one window.
  With valid parameters it returns \<open>windowSize / 2\<close>, which is not 0, when the size of the
  transform it asks for (half the window for algorithm 0, the window otherwise) is a power
  of two and the number of samples is at most \<open>2147483647 - windowSize / 2\<close>, so that no
  value of \<^verbatim>\<open>start + mWindowSize\<close> in the test of the loop leaves the range of \<^verbatim>\<open>int\<close>; the
  outcome then does not depend on what \<^verbatim>\<open>mProcessed[0..windowSize-1]\<close> held before, every
  slot of it being overwritten. With valid parameters and any other transform size the call
  ends the process in the transform of its first block.
\<close>

theorem analysefrequencies_result:
  "(\<not> valid_parameters alg windowFunc windowSize \<or> mDataLen < windowSize \<longrightarrow>
      analysefrequencies alg windowFunc windowSize mData mDataLen mProcessed h = Some (Inr (0, h))) \<and>
   (valid_parameters alg windowFunc windowSize \<and> \<not> mDataLen < windowSize \<and>
    mDataLen \<le> 2147483647 - windowSize sdiv 2 \<and>
    IsPowerOfTwo (transform_size alg windowSize) \<longrightarrow>
      (\<exists>h'. analysefrequencies alg windowFunc windowSize mData mDataLen mProcessed h
               = Some (Inr (windowSize sdiv 2, h'))
            \<and> windowSize sdiv 2 \<noteq> 0
            \<and> (\<forall>h2. same_outside mProcessed (nat windowSize) h h2 \<longrightarrow>
                   analysefrequencies alg windowFunc windowSize mData mDataLen mProcessed h2
                     = Some (Inr (windowSize sdiv 2, h'))))) \<and>
   (valid_parameters alg windowFunc windowSize \<and> \<not> mDataLen < windowSize \<and>
    \<not> IsPowerOfTwo (transform_size alg windowSize) \<longrightarrow>
      analysefrequencies alg windowFunc windowSize mData mDataLen mProcessed h
        = Some (Inl (NotPowerOfTwo (transform_size alg windowSize))))"
proof (intro conjI impI)
  assume "\<not> valid_parameters alg windowFunc windowSize \<or> mDataLen < windowSize"
  then show "analysefrequencies alg windowFunc windowSize mData mDataLen mProcessed h = Some (Inr (0, h))"
    by (rule analysefrequencies_invalid)
next
  assume a: "valid_parameters alg windowFunc windowSize \<and> \<not> mDataLen < windowSize \<and>
             mDataLen \<le> 2147483647 - windowSize sdiv 2 \<and>
             IsPowerOfTwo (transform_size alg windowSize)"
  then obtain h' where h': "analysefrequencies alg windowFunc windowSize mData mDataLen mProcessed h
               = Some (Inr (windowSize sdiv 2, h'))"
    using analysefrequencies_returns[of alg windowFunc windowSize mDataLen mData mProcessed h] by auto
  have "windowSize sdiv 2 \<noteq> 0" using valid_transform_size[of alg windowFunc windowSize] a by auto
  moreover have "analysefrequencies alg windowFunc windowSize mData mDataLen mProcessed h2
                  = Some (Inr (windowSize sdiv 2, h'))"
    if "same_outside mProcessed (nat windowSize) h h2" for h2
    using analysefrequencies_overwrites[OF _ _ that, of alg windowFunc mDataLen mData] a h' by simp
  ultimately show "\<exists>h'. analysefrequencies alg windowFunc windowSize mData mDataLen mProcessed h
               = Some (Inr (windowSize sdiv 2, h'))
            \<and> windowSize sdiv 2 \<noteq> 0
            \<and> (\<forall>h2. same_outside mProcessed (nat windowSize) h h2 \<longrightarrow>
                   analysefrequencies alg windowFunc windowSize mData mDataLen mProcessed h2
                     = Some (Inr (windowSize sdiv 2, h')))"
    using h' by blast
next
  assume "valid_parameters alg windowFunc windowSize \<and> \<not> mDataLen < windowSize \<and>
    \<not> IsPowerOfTwo (transform_size alg windowSize)"
  then show "analysefrequencies alg windowFunc windowSize mData mDataLen mProcessed h
        = Some (Inl (NotPowerOfTwo (transform_size alg windowSize)))"
    by (simp add: analysefrequencies_fails)
qed

theorem analysefrequencies_result_witness:
  "\<not> valid_parameters 0 0 16 \<and>
   analysefrequencies 0 0 16 0 64 64 (const_heap (Finite 1)) = Some (Inr (0, const_heap (Finite 1))) \<and>
   valid_parameters 0 0 64 \<and> \<not> (64::int) < 64 \<and> (64::int) \<le> 2147483647 - 64 sdiv 2 \<and>
   IsPowerOfTwo (transform_size 0 64) \<and>
   (\<exists>h'. analysefrequencies 0 0 64 0 64 64 (const_heap (Finite 1)) = Some (Inr (64 sdiv 2, h'))
        \<and> (64::int) sdiv 2 \<noteq> 0
        \<and> (\<forall>h2. same_outside 64 (nat 64) (const_heap (Finite 1)) h2 \<longrightarrow>
               analysefrequencies 0 0 64 0 64 64 h2 = Some (Inr (64 sdiv 2, h')))) \<and>
   valid_parameters 0 0 48 \<and> \<not> (48::int) < 48 \<and> \<not> IsPowerOfTwo (transform_size 0 48) \<and>
   analysefrequencies 0 0 48 0 48 48 (const_heap (Finite 1))
     = Some (Inl (NotPowerOfTwo (transform_size 0 48)))"
proof -
  have v: "\<not> valid_parameters 0 0 16" "valid_parameters 0 0 64" "valid_parameters 0 0 48"
    by (simp_all add: valid_parameters_def)
  have p: "IsPowerOfTwo (transform_size 0 64)" "\<not> IsPowerOfTwo (transform_size 0 48)"
    by (simp_all add: transform_size_def IsPowerOfTwo_def)
  show ?thesis
    using v p
      analysefrequencies_result [of 0 0 16 64 0 64 "const_heap (Finite 1)"]
      analysefrequencies_result [of 0 0 64 64 0 64 "const_heap (Finite 1)"]
      analysefrequencies_result [of 0 0 48 48 0 48 "const_heap (Finite 1)"]
    by simp
qed

text \<open>The claim as the specification states it fails: window size 48 is within the range
  the validation accepts, there are 48 samples, and the call does not return 24.\<close>

theorem analysefrequencies_result_counterexample:
  "valid_parameters 1 0 48 \<and> \<not> (48::int) < 48 \<and>
   analysefrequencies 1 0 48 0 48 48 (const_heap (Finite 0)) = Some (Inl (NotPowerOfTwo 48))"
proof -
  have v: "valid_parameters 1 0 48" by (simp add: valid_parameters_def)
  have p: "\<not> IsPowerOfTwo (transform_size 1 48)"
    by (simp add: transform_size_def IsPowerOfTwo_def)
  show ?thesis
    using v analysefrequencies_fails[OF v _ p, of 48 0 48 "const_heap (Finite 0)"]
    by (simp add: transform_size_def)
qed

section \<open>What the analysis leaves in memory\<close>





section \<open>The passes as loops over pairs of indices\<close>

lemma FFT_butterfly_fold:
  "0 < E \<Longrightarrow> fold (FFT_butterfly w E i) [0..<m] (cm1, cm2, sm1, sm2, bufs)
   = (case FFT_twiddle_state (sm2, sm1, cm2, cm1, w) m of
        (ar1, ar2, ai1, ai2) \<Rightarrow>
          (case fold (\<lambda>n. FFT_update (FFT_twiddle (sm2, sm1, cm2, cm1, w) n) E (i + n)) [0..<m] bufs of
             (R, I) \<Rightarrow> (ar1, ar2, ai1, ai2, R, I)))"
proof (induction m)
  case 0
  show ?case by (cases bufs) simp
next
  case (Suc m)
  then show ?case
    by (simp only: fold_upt_Suc Suc.IH)
       (simp add: FFT_butterfly_def FFT_update_def FFT_twiddle_def Let_def split: prod.splits)
qed

lemma FFT_block_eq:
  "0 < E \<Longrightarrow> FFT_block c E i bufs = fold (\<lambda>n. FFT_update (FFT_twiddle c n) E (i + n)) [0..<E] bufs"
proof -
  assume E: "0 < E"
  obtain sm2 sm1 cm2 cm1 w where c: "c = (sm2, sm1, cm2, cm1, w)" by (cases c) auto
  obtain R I where b: "bufs = (R, I)" by (cases bufs)
  show ?thesis
    unfolding c b FFT_block_def
    by (simp add: Let_def FFT_butterfly_fold[OF E, of w i E cm1 cm2 sm1 sm2 "(R, I)"] split: prod.splits)
qed

lemma FFT_pass_pow:
  assumes "0 < s" "s \<le> k"
  shows "FFT_pass (2 ^ k) a (2 ^ s) (2 ^ (s - 1)) bufs
         = fold (\<lambda>q. fold (\<lambda>n. FFT_update (FFT_twiddle (FFT_consts a (2 ^ s)) n) (2 ^ (s - 1))
                                  (q * 2 ^ s + n)) [0..<2 ^ (s - 1)])
             [0..<2 ^ (k - s)] bufs"
proof -
  have "(2::nat) ^ k = 2 ^ (k - s) * 2 ^ s" using assms by (simp flip: power_add)
  moreover have "(2 ^ (k - s) * 2 ^ s + (2 ^ s - 1)) div 2 ^ s = (2::nat) ^ (k - s)"
    by (subst div_mult_self3) simp_all
  moreover have "(1::nat) \<le> 2 ^ s" by simp
  ultimately have "((2::nat) ^ k + 2 ^ s - 1) div 2 ^ s = 2 ^ (k - s)"
    by (metis Nat.add_diff_assoc)
  moreover have "FFT_block c (2 ^ (s - 1)) i
                 = fold (\<lambda>n. FFT_update (FFT_twiddle c n) (2 ^ (s - 1)) (i + n)) [0..<2 ^ (s - 1)]" for c i
    by (rule ext) (simp add: FFT_block_eq)
  ultimately show ?thesis
    unfolding FFT_pass_def
    by (simp add: fold_map comp_def)
qed

lemma FFT_index_bound:
  assumes "0 < s" "s \<le> k" "q < 2 ^ (k - s)" "n < 2 ^ (s - 1)"
  shows "q * 2 ^ s + n + 2 ^ (s - 1) < (2::nat) ^ k"
proof -
  have a: "(2::nat) ^ s = 2 ^ (s - 1) + 2 ^ (s - 1)" using assms(1) by (cases s) auto
  have b: "(2::nat) ^ k = 2 ^ (k - s) * 2 ^ s" using assms by (simp flip: power_add)
  have "Suc q * 2 ^ s \<le> 2 ^ (k - s) * (2::nat) ^ s"
    using assms(3) by (intro mult_le_mono1) simp
  then have "q * 2 ^ s + 2 ^ s \<le> (2::nat) ^ k" by (simp add: b)
  moreover have "n + 2 ^ (s - 1) < (2::nat) ^ s" using assms(4) a by simp
  ultimately show ?thesis by linarith
qed

text \<open>An invariant of the arrays that every in-range butterfly keeps is kept by every
  pass, so by the whole sequence of passes.\<close>

lemma FFT_pass_invariant:
  assumes "0 < s" "s \<le> k"
    and "\<And>t E j bufs. j + E < 2 ^ k \<Longrightarrow> P bufs \<Longrightarrow> P (FFT_update (FFT_twiddle (FFT_consts a (2 ^ s)) t) E j bufs)"
    and "P bufs"
  shows "P (FFT_pass (2 ^ k) a (2 ^ s) (2 ^ (s - 1)) bufs)"
  unfolding FFT_pass_pow[OF assms(1,2)]
proof (rule fold_invariant[where P = P, OF assms(4)])
  fix q bufs
  assume q: "q \<in> set [0..<2 ^ (k - s)]" and P: "P bufs"
  show "P (fold (\<lambda>n. FFT_update (FFT_twiddle (FFT_consts a (2 ^ s)) n) (2 ^ (s - 1)) (q * 2 ^ s + n))
             [0..<2 ^ (s - 1)] bufs)"
  proof (rule fold_invariant[where P = P, OF P])
    fix n bufs
    assume n: "n \<in> set [0..<2 ^ (s - 1)]" and P: "P bufs"
    have "q * 2 ^ s + n + 2 ^ (s - 1) < (2::nat) ^ k"
      using FFT_index_bound[OF assms(1,2)] q n by simp
    then show "P (FFT_update (FFT_twiddle (FFT_consts a (2 ^ s)) n) (2 ^ (s - 1)) (q * 2 ^ s + n) bufs)"
      using P by (rule assms(3))
  qed
qed

lemma fold_rel:
  assumes "Rel s t" and "\<And>x s t. x \<in> set xs \<Longrightarrow> Rel s t \<Longrightarrow> Rel (f x s) (g x t)"
  shows "Rel (fold f xs s) (fold g xs t)"
  using assms by (induction xs arbitrary: s t) simp_all

lemma FFT_pass_rel:
  assumes "0 < s" "s \<le> k"
    and "\<And>t E j b1 b2. T t \<Longrightarrow> j + E < 2 ^ k \<Longrightarrow> 0 < E \<Longrightarrow> Rel b1 b2 \<Longrightarrow> Rel (FFT_update t E j b1) (FFT_update t E j b2)"
    and "Rel b1 b2"
    and "\<And>n. T (FFT_twiddle (FFT_consts a (2 ^ s)) n)"
  shows "Rel (FFT_pass (2 ^ k) a (2 ^ s) (2 ^ (s - 1)) b1) (FFT_pass (2 ^ k) a (2 ^ s) (2 ^ (s - 1)) b2)"
  unfolding FFT_pass_pow[OF assms(1,2)]
proof (rule fold_rel[where Rel = Rel, OF assms(4)])
  fix q b1 b2
  assume q: "q \<in> set [0..<2 ^ (k - s)]" and R: "Rel b1 b2"
  show "Rel (fold (\<lambda>n. FFT_update (FFT_twiddle (FFT_consts a (2 ^ s)) n) (2 ^ (s - 1)) (q * 2 ^ s + n))
             [0..<2 ^ (s - 1)] b1)
            (fold (\<lambda>n. FFT_update (FFT_twiddle (FFT_consts a (2 ^ s)) n) (2 ^ (s - 1)) (q * 2 ^ s + n))
             [0..<2 ^ (s - 1)] b2)"
  proof (rule fold_rel[where Rel = Rel, OF R])
    fix n b1 b2
    assume n: "n \<in> set [0..<2 ^ (s - 1)]" and R: "Rel b1 b2"
    have "q * 2 ^ s + n + 2 ^ (s - 1) < (2::nat) ^ k"
      using FFT_index_bound[OF assms(1,2)] q n by simp
    then show "Rel (FFT_update (FFT_twiddle (FFT_consts a (2 ^ s)) n) (2 ^ (s - 1)) (q * 2 ^ s + n) b1)
                   (FFT_update (FFT_twiddle (FFT_consts a (2 ^ s)) n) (2 ^ (s - 1)) (q * 2 ^ s + n) b2)"
      using R assms(5) by (intro assms(3)) simp_all
  qed
qed

lemma FFT_passes_rel:
  assumes "\<And>t E j b1 b2. T t \<Longrightarrow> j + E < 2 ^ k \<Longrightarrow> 0 < E \<Longrightarrow> Rel b1 b2 \<Longrightarrow> Rel (FFT_update t E j b1) (FFT_update t E j b2)"
    and "Rel b1 b2"
    and "\<And>s n. 0 < s \<Longrightarrow> T (FFT_twiddle (FFT_consts a (2 ^ s)) n)"
  shows "Rel (fold (\<lambda>s. FFT_pass (2 ^ k) a (2 ^ s) (2 ^ (s - 1))) [1..<Suc k] b1)
             (fold (\<lambda>s. FFT_pass (2 ^ k) a (2 ^ s) (2 ^ (s - 1))) [1..<Suc k] b2)"
proof (rule fold_rel[where Rel = Rel, OF assms(2)])
  fix s b1 b2
  assume "s \<in> set [1..<Suc k]" and R: "Rel b1 b2"
  then have s: "0 < s" "s \<le> k" by auto
  show "Rel (FFT_pass (2 ^ k) a (2 ^ s) (2 ^ (s - 1)) b1) (FFT_pass (2 ^ k) a (2 ^ s) (2 ^ (s - 1)) b2)"
    using s assms(1) R assms(3)[OF s(1)] by (rule FFT_pass_rel[where T = T])
qed

lemma FFT_passes_invariant:
  assumes "\<And>t E j bufs. T t \<Longrightarrow> j + E < 2 ^ k \<Longrightarrow> 0 < E \<Longrightarrow> P bufs \<Longrightarrow> P (FFT_update t E j bufs)"
    and "P bufs"
    and "\<And>s n. 0 < s \<Longrightarrow> T (FFT_twiddle (FFT_consts a (2 ^ s)) n)"
  shows "P (fold (\<lambda>s. FFT_pass (2 ^ k) a (2 ^ s) (2 ^ (s - 1))) [1..<Suc k] bufs)"
  using FFT_passes_rel[where Rel = "\<lambda>b1 b2. P b1" and T = T and k = k and ?b1.0 = bufs
      and ?b2.0 = bufs and a = a] assms by blast

lemma FFT_update_nth:
  assumes "j + E < length R" "j + E < length I" "0 < E"
  shows "FFT_update (ar0, ai0) E j (R, I)
         = (R[j + E := R ! j - (ar0 * R ! (j + E) - ai0 * I ! (j + E)),
              j := R ! j + (ar0 * R ! (j + E) - ai0 * I ! (j + E))],
            I[j + E := I ! j - (ar0 * I ! (j + E) + ai0 * R ! (j + E)),
              j := I ! j + (ar0 * I ! (j + E) + ai0 * R ! (j + E))])"
  by (simp add: FFT_update_def Let_def)

text \<open>Two runs of the passes on arrays that agree below \<open>2^k\<close> end with arrays that agree
  below \<open>2^k\<close>; what lies beyond \<open>2^k\<close> is not touched.\<close>

lemma FFT_passes_agree:
  assumes "take (2 ^ k) R1 = take (2 ^ k) R2" "take (2 ^ k) I1 = take (2 ^ k) I2"
    "2 ^ k \<le> length R1" "2 ^ k \<le> length I1" "2 ^ k \<le> length R2" "2 ^ k \<le> length I2"
    and "fold (\<lambda>s. FFT_pass (2 ^ k) a (2 ^ s) (2 ^ (s - 1))) [1..<Suc k] (R1, I1) = (R1', I1')"
    and "fold (\<lambda>s. FFT_pass (2 ^ k) a (2 ^ s) (2 ^ (s - 1))) [1..<Suc k] (R2, I2) = (R2', I2')"
  shows "take (2 ^ k) R1' = take (2 ^ k) R2' \<and> take (2 ^ k) I1' = take (2 ^ k) I2'"
proof -
  define Rel where "Rel = (\<lambda>(R1 :: float list, I1 :: float list) (R2 :: float list, I2 :: float list).
      take (2 ^ k) R1 = take (2 ^ k) R2 \<and> take (2 ^ k) I1 = take (2 ^ k) I2 \<and>
      2 ^ k \<le> length R1 \<and> 2 ^ k \<le> length I1 \<and> 2 ^ k \<le> length R2 \<and> 2 ^ k \<le> length I2)"
  have step: "Rel (FFT_update t E j b1) (FFT_update t E j b2)"
    if "j + E < 2 ^ k" "0 < E" "Rel b1 b2" for t E j b1 b2
  proof -
    obtain R1 I1 R2 I2 ar0 ai0 where b: "b1 = (R1, I1)" "b2 = (R2, I2)" "t = (ar0, ai0)"
      by (cases b1, cases b2, cases t) auto
    have r: "take (2 ^ k) R1 = take (2 ^ k) R2" "take (2 ^ k) I1 = take (2 ^ k) I2"
        "2 ^ k \<le> length R1" "2 ^ k \<le> length I1" "2 ^ k \<le> length R2" "2 ^ k \<le> length I2"
      using that(3) by (auto simp: Rel_def b)
    have n: "R1 ! m = R2 ! m" "I1 ! m = I2 ! m" if "m < 2 ^ k" for m
      using r(1,2) that by (metis nth_take)+
    have jk: "j < 2 ^ k" "j + E < 2 ^ k" using that(1) by auto
    show ?thesis
      unfolding b using r jk that(2)
      by (simp add: FFT_update_nth Rel_def take_update_swap n[OF jk(1)] n[OF jk(2)])
  qed
  have "Rel (fold (\<lambda>s. FFT_pass (2 ^ k) a (2 ^ s) (2 ^ (s - 1))) [1..<Suc k] (R1, I1))
            (fold (\<lambda>s. FFT_pass (2 ^ k) a (2 ^ s) (2 ^ (s - 1))) [1..<Suc k] (R2, I2))"
    by (rule FFT_passes_rel[where Rel = Rel and T = "\<lambda>t. True", OF step])
       (use assms in \<open>auto simp: Rel_def\<close>)
  then show ?thesis using assms(7,8) by (simp add: Rel_def)
qed

lemma FFT_passes_frame:
  assumes "2 ^ k \<le> length R" "2 ^ k \<le> length I"
    and "fold (\<lambda>s. FFT_pass (2 ^ k) a (2 ^ s) (2 ^ (s - 1))) [1..<Suc k] (R, I) = (R', I')"
  shows "drop (2 ^ k) R' = drop (2 ^ k) R \<and> drop (2 ^ k) I' = drop (2 ^ k) I"
proof -
  define P where "P = (\<lambda>(R' :: float list, I' :: float list).
      drop (2 ^ k) R' = drop (2 ^ k) R \<and> drop (2 ^ k) I' = drop (2 ^ k) I)"
  have step: "P (FFT_update t E j b)" if "j + E < 2 ^ k" "0 < E" "P b" for t E j b
    using that by (cases b, cases t) (auto simp: P_def FFT_update_def Let_def)
  have "P (fold (\<lambda>s. FFT_pass (2 ^ k) a (2 ^ s) (2 ^ (s - 1))) [1..<Suc k] (R, I))"
    by (rule FFT_passes_invariant[where P = P and T = "\<lambda>t. True", OF step]) (auto simp: P_def)
  then show ?thesis using assms(3) by (simp add: P_def)
qed

lemma FFT_passes_NaN:
  assumes "\<forall>m < 2 ^ k. R ! m = NaN" "2 ^ k \<le> length R" "2 ^ k \<le> length I"
    and "fold (\<lambda>s. FFT_pass (2 ^ k) a (2 ^ s) (2 ^ (s - 1))) [1..<Suc k] (R, I) = (R', I')"
  shows "\<forall>m < 2 ^ k. R' ! m = NaN"
proof -
  define P where "P = (\<lambda>(R' :: float list, I' :: float list).
      (\<forall>m < 2 ^ k. R' ! m = NaN) \<and> 2 ^ k \<le> length R' \<and> 2 ^ k \<le> length I')"
  have step: "P (FFT_update t E j b)" if "j + E < 2 ^ k" "0 < E" "P b" for t E j b
  proof -
    obtain R I ar0 ai0 where b: "b = (R, I)" "t = (ar0, ai0)" by (cases b, cases t) auto
    have "R ! j = NaN" using that by (auto simp: P_def b)
    then show ?thesis
      unfolding b using that
      by (auto simp: FFT_update_nth P_def b nth_list_update minus_float_def)
  qed
  have "P (fold (\<lambda>s. FFT_pass (2 ^ k) a (2 ^ s) (2 ^ (s - 1))) [1..<Suc k] (R, I))"
    by (rule FFT_passes_invariant[where P = P and T = "\<lambda>t. True", OF step])
       (use assms in \<open>auto simp: P_def\<close>)
  then show ?thesis using assms(4) by (simp add: P_def)
qed


section \<open>The twiddle factors\<close>

lemma FFT_consts_Finite:
  "0 < B \<Longrightarrow> FFT_consts (Finite a) B
     = (Finite (sin (- 2 * (a / real B))), Finite (sin (- (a / real B))),
        Finite (cos (- 2 * (a / real B))), Finite (cos (- (a / real B))),
        Finite (2 * cos (- (a / real B))))"
  by (simp add: FFT_consts_def float_of_int_def Let_def)

lemma cos_recurrence: "2 * cos d * cos (x - d) - cos (x - 2 * d) = cos (x :: real)"
proof -
  have "cos ((x - d) + d) + cos ((x - d) - d) = 2 * cos (x - d) * cos d"
    unfolding cos_add cos_diff by simp
  then show ?thesis by (simp add: algebra_simps)
qed

lemma sin_recurrence: "2 * cos d * sin (x - d) - sin (x - 2 * d) = sin (x :: real)"
proof -
  have "sin ((x - d) + d) + sin ((x - d) - d) = 2 * sin (x - d) * cos d"
    unfolding sin_add sin_diff by simp
  then show ?thesis by (simp add: algebra_simps)
qed

lemma FFT_twiddle_state_Finite:
  assumes "0 < B"
  shows "FFT_twiddle_state (FFT_consts (Finite a) B) n
         = (Finite (cos (real n * (a / real B) - a / real B)),
            Finite (cos (real n * (a / real B) - 2 * (a / real B))),
            Finite (sin (real n * (a / real B) - a / real B)),
            Finite (sin (real n * (a / real B) - 2 * (a / real B))))"
proof -
  define d where "d = a / real B"
  have c: "FFT_consts (Finite a) B
           = (Finite (sin (- 2 * d)), Finite (sin (- d)), Finite (cos (- 2 * d)), Finite (cos (- d)),
              Finite (2 * cos (- d)))"
    unfolding d_def by (rule FFT_consts_Finite[OF assms])
  have "FFT_twiddle_state (FFT_consts (Finite a) B) n
         = (Finite (cos (real n * d - d)), Finite (cos (real n * d - 2 * d)),
            Finite (sin (real n * d - d)), Finite (sin (real n * d - 2 * d)))"
  proof (induction n)
    case 0
    show ?case by (simp add: c)
  next
    case (Suc n)
    have e: "real (Suc n) * d - d = real n * d"
      "real (Suc n) * d - 2 * d = real n * d - d"
      by (simp_all add: algebra_simps)
    have "2 * cos d * cos (real n * d - d) - cos (real n * d - 2 * d) = cos (real n * d)"
      by (rule cos_recurrence)
    moreover have "2 * cos d * sin (real n * d - d) - sin (real n * d - 2 * d) = sin (real n * d)"
      by (rule sin_recurrence)
    ultimately show ?case
      unfolding e using Suc.IH[unfolded c]
      by (simp add: c minus_float_def)
  qed
  then show ?thesis by (simp add: d_def)
qed

lemma FFT_twiddle_Finite:
  assumes "0 < B"
  shows "FFT_twiddle (FFT_consts (Finite a) B) n
     = (Finite (cos (real n * (a / real B))), Finite (sin (real n * (a / real B))))"
proof -
  have "real (Suc n) * d - d = real n * d" for d :: real
    by (simp add: algebra_simps)
  then show ?thesis
    by (simp only: FFT_twiddle_def FFT_twiddle_state_Finite[OF assms] prod.case)
qed

section \<open>The forward transform on arrays longer than the transform\<close>

lemma FFT_forward_eq:
  assumes "0 < k"
  shows "FFT (2 ^ k) False RealIn ImagIn RealOut ImagOut
         = Some (Inr (fold (\<lambda>s. FFT_pass (2 ^ k) (Finite (2 * pi)) (2 ^ s) (2 ^ (s - 1))) [1..<Suc k]
                        (FFT_scatter (2 ^ k) k RealIn ImagIn (RealOut, ImagOut))))"
  using FFT_eq[OF assms, of False] by simp

lemma FFT_forward_agree:
  assumes k: "0 < k"
    and len: "2 ^ k \<le> length R1" "2 ^ k \<le> length I1" "2 ^ k \<le> length R2" "2 ^ k \<le> length I2"
    and f1: "FFT (2 ^ k) False RealIn ImagIn R1 I1 = Some (Inr (R1', I1'))"
    and f2: "FFT (2 ^ k) False RealIn ImagIn R2 I2 = Some (Inr (R2', I2'))"
  shows "take (2 ^ k) R1' = take (2 ^ k) R2' \<and> take (2 ^ k) I1' = take (2 ^ k) I2'"
proof -
  let ?re = "map (\<lambda>j. RealIn ! ReverseBits j k) [0..<2 ^ k]"
  let ?im = "map (\<lambda>j. case ImagIn of None \<Rightarrow> Finite 0 | Some ImagIn \<Rightarrow> ImagIn ! ReverseBits j k) [0..<2 ^ k]"
  show ?thesis
  proof (rule FFT_passes_agree)
    show "fold (\<lambda>s. FFT_pass (2 ^ k) (Finite (2 * pi)) (2 ^ s) (2 ^ (s - 1))) [1..<Suc k]
            (?re @ drop (2 ^ k) R1, ?im @ drop (2 ^ k) I1) = (R1', I1')"
      using f1 unfolding FFT_forward_eq[OF k] FFT_scatter_eq[OF k len(1,2)] by simp
    show "fold (\<lambda>s. FFT_pass (2 ^ k) (Finite (2 * pi)) (2 ^ s) (2 ^ (s - 1))) [1..<Suc k]
            (?re @ drop (2 ^ k) R2, ?im @ drop (2 ^ k) I2) = (R2', I2')"
      using f2 unfolding FFT_forward_eq[OF k] FFT_scatter_eq[OF k len(3,4)] by simp
  qed (use len in simp_all)
qed

lemma FFT_forward_frame:
  assumes k: "0 < k"
    and len: "2 ^ k \<le> length R" "2 ^ k \<le> length I"
    and f: "FFT (2 ^ k) False RealIn ImagIn R I = Some (Inr (R', I'))"
  shows "drop (2 ^ k) R' = drop (2 ^ k) R \<and> drop (2 ^ k) I' = drop (2 ^ k) I"
proof -
  let ?re = "map (\<lambda>j. RealIn ! ReverseBits j k) [0..<2 ^ k]"
  let ?im = "map (\<lambda>j. case ImagIn of None \<Rightarrow> Finite 0 | Some ImagIn \<Rightarrow> ImagIn ! ReverseBits j k) [0..<2 ^ k]"
  have "fold (\<lambda>s. FFT_pass (2 ^ k) (Finite (2 * pi)) (2 ^ s) (2 ^ (s - 1))) [1..<Suc k]
            (?re @ drop (2 ^ k) R, ?im @ drop (2 ^ k) I) = (R', I')"
    using f unfolding FFT_forward_eq[OF k] FFT_scatter_eq[OF k len] by simp
  from FFT_passes_frame[OF _ _ this] len show ?thesis by simp
qed

lemma FFT_forward_NaN:
  assumes k: "0 < k"
    and len: "2 ^ k \<le> length R" "2 ^ k \<le> length I"
    and nan: "\<forall>i < 2 ^ k. RealIn ! i = NaN"
    and f: "FFT (2 ^ k) False RealIn ImagIn R I = Some (Inr (R', I'))"
  shows "\<forall>m < 2 ^ k. R' ! m = NaN"
proof -
  let ?re = "map (\<lambda>j. RealIn ! ReverseBits j k) [0..<2 ^ k]"
  let ?im = "map (\<lambda>j. case ImagIn of None \<Rightarrow> Finite 0 | Some ImagIn \<Rightarrow> ImagIn ! ReverseBits j k) [0..<2 ^ k]"
  have fo: "fold (\<lambda>s. FFT_pass (2 ^ k) (Finite (2 * pi)) (2 ^ s) (2 ^ (s - 1))) [1..<Suc k]
            (?re @ drop (2 ^ k) R, ?im @ drop (2 ^ k) I) = (R', I')"
    using f unfolding FFT_forward_eq[OF k] FFT_scatter_eq[OF k len] by simp
  have "(?re @ drop (2 ^ k) R) ! m = NaN" if "m < 2 ^ k" for m
    using nan[rule_format, OF ReverseBits_less[of m k]] that by (simp add: nth_append)
  then have z0: "\<forall>m < 2 ^ k. (?re @ drop (2 ^ k) R) ! m = NaN" by blast
  have l: "2 ^ k \<le> length (?re @ drop (2 ^ k) R)" "2 ^ k \<le> length (?im @ drop (2 ^ k) I)"
    by simp_all
  show ?thesis by (rule FFT_passes_NaN[OF z0 l fo])
qed

lemma FFT_passes_zero:
  assumes "\<forall>m < 2 ^ k. R ! m = Finite 0 \<and> I ! m = Finite 0" "2 ^ k \<le> length R" "2 ^ k \<le> length I"
    and "fold (\<lambda>s. FFT_pass (2 ^ k) (Finite a) (2 ^ s) (2 ^ (s - 1))) [1..<Suc k] (R, I) = (R', I')"
  shows "\<forall>m < 2 ^ k. R' ! m = Finite 0 \<and> I' ! m = Finite 0"
proof -
  define P where "P = (\<lambda>(R' :: float list, I' :: float list).
      (\<forall>m < 2 ^ k. R' ! m = Finite 0 \<and> I' ! m = Finite 0) \<and> 2 ^ k \<le> length R' \<and> 2 ^ k \<le> length I')"
  define T where "T = (\<lambda>t :: float \<times> float. \<exists>x y. t = (Finite x, Finite y))"
  have step: "P (FFT_update t E j b)"
    if Tt: "T t" and jE: "j + E < 2 ^ k" and E: "0 < E" and Pb: "P b" for t E j b
  proof -
    obtain R I where b1: "b = (R, I)" by (cases b)
    obtain x y where b2: "t = (Finite x, Finite y)"
      using Tt by (auto simp: T_def)
    note b = b1 b2
    have "R ! j = Finite 0" "I ! j = Finite 0" "R ! (j + E) = Finite 0" "I ! (j + E) = Finite 0"
      using jE Pb by (auto simp: P_def b)
    then show ?thesis
      unfolding b using jE E Pb
      by (auto simp: FFT_update_nth P_def b nth_list_update minus_float_def)
  qed
  have P0: "P (R, I)" using assms(1-3) by (simp add: P_def)
  have TT: "T (FFT_twiddle (FFT_consts (Finite a) (2 ^ s)) n)" for s n
    by (simp add: T_def FFT_twiddle_Finite)
  have "P (fold (\<lambda>s. FFT_pass (2 ^ k) (Finite a) (2 ^ s) (2 ^ (s - 1))) [1..<Suc k] (R, I))"
    by (rule FFT_passes_invariant[where P = P and T = T, OF step P0 TT])
  then show ?thesis using assms(4) by (simp add: P_def)
qed

lemma FFT_forward_zero:
  assumes k: "0 < k"
    and len: "2 ^ k \<le> length R" "2 ^ k \<le> length I"
    and z: "\<forall>i < 2 ^ k. RealIn ! i = Finite 0"
      "\<forall>i < 2 ^ k. (case ImagIn of None \<Rightarrow> Finite 0 | Some ImagIn \<Rightarrow> ImagIn ! i) = Finite 0"
    and f: "FFT (2 ^ k) False RealIn ImagIn R I = Some (Inr (R', I'))"
  shows "\<forall>m < 2 ^ k. R' ! m = Finite 0 \<and> I' ! m = Finite 0"
proof -
  let ?re = "map (\<lambda>j. RealIn ! ReverseBits j k) [0..<2 ^ k]"
  let ?im = "map (\<lambda>j. case ImagIn of None \<Rightarrow> Finite 0 | Some ImagIn \<Rightarrow> ImagIn ! ReverseBits j k) [0..<2 ^ k]"
  have fo: "fold (\<lambda>s. FFT_pass (2 ^ k) (Finite (2 * pi)) (2 ^ s) (2 ^ (s - 1))) [1..<Suc k]
            (?re @ drop (2 ^ k) R, ?im @ drop (2 ^ k) I) = (R', I')"
    using f unfolding FFT_forward_eq[OF k] FFT_scatter_eq[OF k len] by simp
  have "(?re @ drop (2 ^ k) R) ! m = Finite 0 \<and> (?im @ drop (2 ^ k) I) ! m = Finite 0"
    if "m < 2 ^ k" for m
  proof -
    have r: "ReverseBits m k < 2 ^ k" by (rule ReverseBits_less)
    have "?re ! m = Finite 0"
      using z(1)[rule_format, OF r] that by simp
    moreover have "?im ! m = Finite 0"
      using z(2)[rule_format, OF r] that by (cases ImagIn) simp_all
    ultimately show ?thesis using that by (simp add: nth_append)
  qed
  then have z0: "\<forall>m < 2 ^ k. (?re @ drop (2 ^ k) R) ! m = Finite 0 \<and> (?im @ drop (2 ^ k) I) ! m = Finite 0"
    by blast
  have l: "2 ^ k \<le> length (?re @ drop (2 ^ k) R)" "2 ^ k \<le> length (?im @ drop (2 ^ k) I)"
    by simp_all
  show ?thesis by (rule FFT_passes_zero[OF z0 l fo])
qed

section \<open>Power spectrum and real FFT\<close>

lemma new_float_length [simp]: "length (new_float n) = nat n"
  by (simp add: new_float_def)

lemma pack_eq:
  "fold (\<lambda>i (tmpReal, tmpImag). (tmpReal[i := In ! (2 * i)], tmpImag[i := In ! (2 * i + 1)]))
     [0..<nat Half] (new_float Half, new_float Half)
   = (map (\<lambda>i. In ! (2 * i)) [0..<nat Half], map (\<lambda>i. In ! (2 * i + 1)) [0..<nat Half])"
proof -
  have "fold (\<lambda>i xs. xs[i := g i]) [0..<nat Half] (new_float Half) = map g [0..<nat Half]"
    for g :: "nat \<Rightarrow> float"
    using fold_update_map[of "nat Half" "new_float Half" "\<lambda>i x. g i"] by simp
  then show ?thesis by (simp add: fold_pair)
qed

lemma upt_1_Suc: "1 \<le> m \<Longrightarrow> [1..<Suc m] = [1..<m] @ [m]"
  by simp

text \<open>The two recombination loops side by side, after the turns \<open>1, \<dots>, m - 1\<close>: the twiddle
  factors are the same, \<^verbatim>\<open>RealFFT\<close> has not yet touched the bins \<open>0\<close>, \<open>m, \<dots>, H - m\<close> and
  those from \<open>H\<close> on, \<^verbatim>\<open>PowerSpectrum\<close> has not yet written them, and each bin already
  written holds the squared magnitude of what \<^verbatim>\<open>RealFFT\<close> left there.\<close>

lemma recombination_loops:
  assumes len: "H \<le> length R" "H \<le> length I"
    and same: "\<forall>i < H. Rp ! i = R ! i \<and> Ip ! i = I ! i"
  shows "1 \<le> m \<Longrightarrow> 2 * m \<le> H \<Longrightarrow>
         \<exists>wr wi R' I' Out'.
            fold (RealFFT_step H wpr wpi) [1..<m] (wr0, wi0, R, I) = (wr, wi, R', I') \<and>
            fold (PowerSpectrum_step H wpr wpi Rp Ip) [1..<m] (wr0, wi0, Out) = (wr, wi, Out') \<and>
            length R' = length R \<and> length I' = length I \<and> length Out' = length Out \<and>
            (\<forall>i. i = 0 \<or> (m \<le> i \<and> i + m \<le> H) \<or> H \<le> i \<longrightarrow>
                   R' ! i = R ! i \<and> I' ! i = I ! i \<and> Out' ! i = Out ! i) \<and>
            (\<forall>i. i < length Out \<and> ((1 \<le> i \<and> i < m) \<or> (H < i + m \<and> i < H)) \<longrightarrow>
                   Out' ! i = R' ! i * R' ! i + I' ! i * I' ! i)"
proof (induction m)
  case 0
  then show ?case by simp
next
  case (Suc m)
  show ?case
  proof (cases "m = 0")
    case True
    have e: "[1..<Suc m] = []" using True by simp
    have "\<not> (i < length Out \<and> ((1 \<le> i \<and> i < Suc m) \<or> (H < i + Suc m \<and> i < H)))" for i
      using True by arith
    then show ?thesis
      unfolding e fold.simps id_apply
      by (rule_tac exI[of _ wr0], rule_tac exI[of _ wi0], rule_tac exI[of _ R],
          rule_tac exI[of _ I], rule_tac exI[of _ Out]) (simp, blast)
  next
    case False
    then have m: "1 \<le> m" "2 * m \<le> H" using Suc.prems by simp_all
    from Suc.IH[OF m]
    obtain wr wi R' I' Out' where IH:
      "fold (RealFFT_step H wpr wpi) [1..<m] (wr0, wi0, R, I) = (wr, wi, R', I') \<and>
       fold (PowerSpectrum_step H wpr wpi Rp Ip) [1..<m] (wr0, wi0, Out) = (wr, wi, Out') \<and>
       length R' = length R \<and> length I' = length I \<and> length Out' = length Out \<and>
       (\<forall>i. i = 0 \<or> (m \<le> i \<and> i + m \<le> H) \<or> H \<le> i \<longrightarrow>
              R' ! i = R ! i \<and> I' ! i = I ! i \<and> Out' ! i = Out ! i) \<and>
       (\<forall>i. i < length Out \<and> ((1 \<le> i \<and> i < m) \<or> (H < i + m \<and> i < H)) \<longrightarrow>
              Out' ! i = R' ! i * R' ! i + I' ! i * I' ! i)"
      by (elim exE) (rule that)
    have f1: "fold (RealFFT_step H wpr wpi) [1..<m] (wr0, wi0, R, I) = (wr, wi, R', I')"
      and f2: "fold (PowerSpectrum_step H wpr wpi Rp Ip) [1..<m] (wr0, wi0, Out) = (wr, wi, Out')"
      and l: "length R' = length R" "length I' = length I" "length Out' = length Out"
      using IH by simp_all
    have u: "R' ! i = R ! i \<and> I' ! i = I ! i \<and> Out' ! i = Out ! i"
      if "i = 0 \<or> (m \<le> i \<and> i + m \<le> H) \<or> H \<le> i" for i
      using IH that by blast
    have p: "Out' ! i = R' ! i * R' ! i + I' ! i * I' ! i"
      if "i < length Out" "(1 \<le> i \<and> i < m) \<or> (H < i + m \<and> i < H)" for i
      using IH that by blast
    have mH: "m < H" "H - m < H" "m \<noteq> H - m" "m < H - m" "m + (H - m) = H"
      using Suc.prems m by simp_all
    have rm: "R' ! m = Rp ! m" "I' ! m = Ip ! m" "R' ! (H - m) = Rp ! (H - m)" "I' ! (H - m) = Ip ! (H - m)"
      using u[of m] u[of "H - m"] same mH m by simp_all
    define h1r where "h1r = Finite 0.5 * (R' ! m + R' ! (H - m))"
    define h1i where "h1i = Finite 0.5 * (I' ! m - I' ! (H - m))"
    define h2r where "h2r = Finite 0.5 * (I' ! m + I' ! (H - m))"
    define h2i where "h2i = Finite (- 0.5) * (R' ! m - R' ! (H - m))"
    define R'' where "R'' = R'[m := h1r + wr * h2r - wi * h2i, H - m := h1r - wr * h2r + wi * h2i]"
    define I'' where "I'' = I'[m := h1i + wr * h2i + wi * h2r, H - m := - h1i + wr * h2i + wi * h2r]"
    define Out'' where "Out'' = Out'[m := R'' ! m * R'' ! m + I'' ! m * I'' ! m,
                                    H - m := R'' ! (H - m) * R'' ! (H - m) + I'' ! (H - m) * I'' ! (H - m)]"
    define wr' where "wr' = wr * wpr - wi * wpi + wr"
    define wi' where "wi' = wi * wpr + wr * wpi + wi"
    have inr: "m < length R'" "H - m < length R'" "m < length I'" "H - m < length I'"
      using len l mH by simp_all
    have s1: "RealFFT_step H wpr wpi m (wr, wi, R', I') = (wr', wi', R'', I'')"
      by (simp add: RealFFT_step_def Let_def R''_def I''_def wr'_def wi'_def
            h1r_def h1i_def h2r_def h2i_def)
    have vals: "R'' ! m = h1r + wr * h2r - wi * h2i" "I'' ! m = h1i + wr * h2i + wi * h2r"
        "R'' ! (H - m) = h1r - wr * h2r + wi * h2i" "I'' ! (H - m) = - h1i + wr * h2i + wi * h2r"
      using inr mH by (simp_all add: R''_def I''_def)
    have s2: "PowerSpectrum_step H wpr wpi Rp Ip m (wr, wi, Out') = (wr', wi', Out'')"
      unfolding PowerSpectrum_step_def Let_def Out''_def vals
      by (simp add: wr'_def wi'_def h1r_def h1i_def h2r_def h2i_def rm)
    have F1: "fold (RealFFT_step H wpr wpi) [1..<Suc m] (wr0, wi0, R, I) = (wr', wi', R'', I'')"
      by (simp only: upt_1_Suc[OF m(1)] fold_append o_apply f1 fold.simps id_apply s1)
    have F2: "fold (PowerSpectrum_step H wpr wpi Rp Ip) [1..<Suc m] (wr0, wi0, Out) = (wr', wi', Out'')"
      by (simp only: upt_1_Suc[OF m(1)] fold_append o_apply f2 fold.simps id_apply s2)
    have L: "length R'' = length R" "length I'' = length I" "length Out'' = length Out"
      using l by (simp_all add: R''_def I''_def Out''_def)
    have U: "R'' ! i = R ! i \<and> I'' ! i = I ! i \<and> Out'' ! i = Out ! i"
      if "i = 0 \<or> (Suc m \<le> i \<and> i + Suc m \<le> H) \<or> H \<le> i" for i
    proof -
      have "i \<noteq> m" "i \<noteq> H - m" using that m mH by auto
      moreover have "i = 0 \<or> (m \<le> i \<and> i + m \<le> H) \<or> H \<le> i" using that by auto
      ultimately show ?thesis using u[of i] by (simp add: R''_def I''_def Out''_def)
    qed
    have P: "Out'' ! i = R'' ! i * R'' ! i + I'' ! i * I'' ! i"
      if "i < length Out" "(1 \<le> i \<and> i < Suc m) \<or> (H < i + Suc m \<and> i < H)" for i
    proof -
      consider "i = m" | "i = H - m" | "i \<noteq> m" "i \<noteq> H - m" by blast
      then show ?thesis
      proof cases
        case 1
        then show ?thesis using that(1) l mH by (simp add: Out''_def)
      next
        case 2
        then show ?thesis using that(1) l by (simp add: Out''_def)
      next
        case 3
        then have "(1 \<le> i \<and> i < m) \<or> (H < i + m \<and> i < H)" using that(2) by auto
        from p[OF that(1) this] 3 show ?thesis by (simp add: R''_def I''_def Out''_def)
      qed
    qed
    have U': "\<forall>i. i = 0 \<or> (Suc m \<le> i \<and> i + Suc m \<le> H) \<or> H \<le> i \<longrightarrow>
                   R'' ! i = R ! i \<and> I'' ! i = I ! i \<and> Out'' ! i = Out ! i"
      using U by blast
    have P': "\<forall>i. i < length Out \<and> ((1 \<le> i \<and> i < Suc m) \<or> (H < i + Suc m \<and> i < H)) \<longrightarrow>
                   Out'' ! i = R'' ! i * R'' ! i + I'' ! i * I'' ! i"
      using P by blast
    show ?thesis
      by (rule_tac exI[of _ wr'], rule_tac exI[of _ wi'], rule_tac exI[of _ R''],
          rule_tac exI[of _ I''], rule_tac exI[of _ Out''], intro conjI)
         (rule F1 F2 L U' P')+
  qed
qed

lemma RealFFT_unfold:
  assumes "\<not> N sdiv 2 < 0"
    and "FFT (N sdiv 2) False (map (\<lambda>i. In ! (2 * i)) [0..<nat (N sdiv 2)])
           (Some (map (\<lambda>i. In ! (2 * i + 1)) [0..<nat (N sdiv 2)])) RealOut ImagOut = Some (Inr (R, I))"
    and "fold (RealFFT_step (nat (N sdiv 2))
                 (Finite (- 2) * fsin (Finite 0.5 * (Finite pi / float_of_int (N sdiv 2)))
                    * fsin (Finite 0.5 * (Finite pi / float_of_int (N sdiv 2))))
                 (fsin (Finite pi / float_of_int (N sdiv 2))))
           [1..<nat (N sdiv 2 sdiv 2)]
           (Finite 1 + Finite (- 2) * fsin (Finite 0.5 * (Finite pi / float_of_int (N sdiv 2)))
                    * fsin (Finite 0.5 * (Finite pi / float_of_int (N sdiv 2))),
            fsin (Finite pi / float_of_int (N sdiv 2)), R, I) = (wr, wi, R', I')"
  shows "RealFFT N In RealOut ImagOut
         = Some (Inr (R'[0 := R' ! 0 + I' ! 0], I'[0 := R' ! 0 - I' ! 0]))"
  unfolding RealFFT_def Let_def pack_eq
  using assms by simp

lemma PowerSpectrum_unfold:
  assumes "\<not> N sdiv 2 < 0"
    and "FFT (N sdiv 2) False (map (\<lambda>i. In ! (2 * i)) [0..<nat (N sdiv 2)])
           (Some (map (\<lambda>i. In ! (2 * i + 1)) [0..<nat (N sdiv 2)]))
           (new_float (N sdiv 2)) (new_float (N sdiv 2)) = Some (Inr (R, I))"
    and "fold (PowerSpectrum_step (nat (N sdiv 2))
                 (Finite (- 2) * fsin (Finite 0.5 * (Finite pi / float_of_int (N sdiv 2)))
                    * fsin (Finite 0.5 * (Finite pi / float_of_int (N sdiv 2))))
                 (fsin (Finite pi / float_of_int (N sdiv 2))) R I)
           [1..<nat (N sdiv 2 sdiv 2)]
           (Finite 1 + Finite (- 2) * fsin (Finite 0.5 * (Finite pi / float_of_int (N sdiv 2)))
                    * fsin (Finite 0.5 * (Finite pi / float_of_int (N sdiv 2))),
            fsin (Finite pi / float_of_int (N sdiv 2)), Out) = (wr, wi, Out')"
  shows "PowerSpectrum N In Out
         = Some (Inr (Out'[0 := (R ! 0 + I ! 0) * (R ! 0 + I ! 0) + (R ! 0 - I ! 0) * (R ! 0 - I ! 0),
                           nat (N sdiv 2 sdiv 2) :=
                             R ! nat (N sdiv 2 sdiv 2) * R ! nat (N sdiv 2 sdiv 2)
                             + I ! nat (N sdiv 2 sdiv 2) * I ! nat (N sdiv 2 sdiv 2)]))"
  unfolding PowerSpectrum_def Let_def pack_eq
  using assms by simp

lemma drop_eq_nth:
  assumes "drop n xs = drop n ys" "n \<le> i" "n \<le> length xs" "n \<le> length ys"
  shows "xs ! i = ys ! i"
proof -
  have "drop n xs ! (i - n) = drop n ys ! (i - n)" using assms(1) by simp
  then show ?thesis using assms(2-4) by (simp add: nth_drop)
qed

lemma PowerSpectrum_RealFFT:
  assumes k: "0 < k" and N: "N sdiv 2 = 2 ^ k"
    and len: "2 ^ k \<le> length RealOut" "2 ^ k \<le> length ImagOut" "2 ^ k \<le> length Out"
  shows "\<exists>ro io out.
           RealFFT N In RealOut ImagOut = Some (Inr (ro, io)) \<and>
           PowerSpectrum N In Out = Some (Inr out) \<and>
           length ro = length RealOut \<and> length io = length ImagOut \<and> length out = length Out \<and>
           (\<forall>i < 2 ^ k. out ! i = ro ! i * ro ! i + io ! i * io ! i) \<and>
           (\<forall>i. 2 ^ k \<le> i \<and> i < length RealOut \<longrightarrow> ro ! i = RealOut ! i) \<and>
           (\<forall>i. 2 ^ k \<le> i \<and> i < length ImagOut \<longrightarrow> io ! i = ImagOut ! i) \<and>
           (\<forall>i. 2 ^ k \<le> i \<longrightarrow> out ! i = Out ! i)"
proof -
  let ?H = "(2::nat) ^ k"
  let ?tr = "map (\<lambda>i. In ! (2 * i)) [0..<nat (N sdiv 2)]"
  let ?ti = "map (\<lambda>i. In ! (2 * i + 1)) [0..<nat (N sdiv 2)]"
  let ?wpr = "Finite (- 2) * fsin (Finite 0.5 * (Finite pi / float_of_int (N sdiv 2)))
                    * fsin (Finite 0.5 * (Finite pi / float_of_int (N sdiv 2)))"
  let ?wpi = "fsin (Finite pi / float_of_int (N sdiv 2))"
  have nH: "nat (N sdiv 2) = ?H" by (simp add: N nat_power_eq)
  have H2: "N sdiv 2 sdiv 2 = 2 ^ (k - 1)"
    using k by (cases k) (simp_all add: N sdiv_2_nonneg)
  have nH2: "nat (N sdiv 2 sdiv 2) = 2 ^ (k - 1)" by (simp add: H2 nat_power_eq)
  have HH: "2 * 2 ^ (k - 1) = ?H" using k by (cases k) simp_all
  have pos: "\<not> N sdiv 2 < 0" by (simp add: N)
  obtain R I where f1: "FFT (N sdiv 2) False ?tr (Some ?ti) RealOut ImagOut = Some (Inr (R, I))"
    using FFT_returns[of "N sdiv 2"] IsPowerOfTwo_pow[OF k] N by (metis surj_pair)
  obtain Rp Ip where f2: "FFT (N sdiv 2) False ?tr (Some ?ti) (new_float (N sdiv 2)) (new_float (N sdiv 2))
                          = Some (Inr (Rp, Ip))"
    using FFT_returns[of "N sdiv 2"] IsPowerOfTwo_pow[OF k] N by (metis surj_pair)
  have lR: "length R = length RealOut" "length I = length ImagOut"
    using FFT_length[OF f1] by simp_all
  have lp: "length Rp = ?H" "length Ip = ?H"
    using FFT_length[OF f2] by (simp_all add: nH)
  have ag: "take ?H Rp = take ?H R \<and> take ?H Ip = take ?H I"
    using FFT_forward_agree[OF k _ _ _ _ f2[unfolded N] f1[unfolded N]] len
    by (simp add: N nat_power_eq)
  have same: "\<forall>i < ?H. Rp ! i = R ! i \<and> Ip ! i = I ! i"
    using ag by (metis nth_take)
  have fr: "drop ?H R = drop ?H RealOut \<and> drop ?H I = drop ?H ImagOut"
    using FFT_forward_frame[OF k len(1,2) f1[unfolded N]] .
  have lenR: "?H \<le> length R" "?H \<le> length I" using len lR by simp_all
  have m1: "1 \<le> (2::nat) ^ (k - 1)" "2 * 2 ^ (k - 1) \<le> ?H" using HH by simp_all
  from recombination_loops[OF lenR same m1, of ?wpr ?wpi "Finite 1 + ?wpr" ?wpi Out]
  obtain wr wi R' I' Out' where rl:
      "fold (RealFFT_step ?H ?wpr ?wpi) [1..<2 ^ (k - 1)] (Finite 1 + ?wpr, ?wpi, R, I) = (wr, wi, R', I') \<and>
       fold (PowerSpectrum_step ?H ?wpr ?wpi Rp Ip) [1..<2 ^ (k - 1)] (Finite 1 + ?wpr, ?wpi, Out) = (wr, wi, Out') \<and>
       length R' = length R \<and> length I' = length I \<and> length Out' = length Out \<and>
       (\<forall>i. i = 0 \<or> (2 ^ (k - 1) \<le> i \<and> i + 2 ^ (k - 1) \<le> ?H) \<or> ?H \<le> i \<longrightarrow>
              R' ! i = R ! i \<and> I' ! i = I ! i \<and> Out' ! i = Out ! i) \<and>
       (\<forall>i. i < length Out \<and> ((1 \<le> i \<and> i < 2 ^ (k - 1)) \<or> (?H < i + 2 ^ (k - 1) \<and> i < ?H)) \<longrightarrow>
              Out' ! i = R' ! i * R' ! i + I' ! i * I' ! i)"
    by (elim exE) (rule that)
  note c2 = conjunct2
  note g1 = rl[THEN conjunct1]
  note g2 = rl[THEN c2, THEN conjunct1]
  note l' = rl[THEN c2, THEN c2, THEN conjunct1] rl[THEN c2, THEN c2, THEN c2, THEN conjunct1]
    rl[THEN c2, THEN c2, THEN c2, THEN c2, THEN conjunct1]
  note u = rl[THEN c2, THEN c2, THEN c2, THEN c2, THEN c2, THEN conjunct1, rule_format]
  note p0 = rl[THEN c2, THEN c2, THEN c2, THEN c2, THEN c2, THEN c2, rule_format]
  have p: "Out' ! i = R' ! i * R' ! i + I' ! i * I' ! i"
    if "i < length Out" "(1 \<le> i \<and> i < 2 ^ (k - 1)) \<or> (?H < i + 2 ^ (k - 1) \<and> i < ?H)" for i
    by (rule p0) (use that in blast)
  define ro where "ro = R'[0 := R' ! 0 + I' ! 0]"
  define io where "io = I'[0 := R' ! 0 - I' ! 0]"
  define out where "out = Out'[0 := (Rp ! 0 + Ip ! 0) * (Rp ! 0 + Ip ! 0) + (Rp ! 0 - Ip ! 0) * (Rp ! 0 - Ip ! 0),
                           2 ^ (k - 1) := Rp ! (2 ^ (k - 1)) * Rp ! (2 ^ (k - 1))
                                          + Ip ! (2 ^ (k - 1)) * Ip ! (2 ^ (k - 1))]"
  have e1: "RealFFT N In RealOut ImagOut = Some (Inr (ro, io))"
    unfolding ro_def io_def
    by (rule RealFFT_unfold[OF pos f1]) (simp only: nH nH2 g1)
  have e2: "PowerSpectrum N In Out = Some (Inr out)"
    unfolding out_def nH2[symmetric]
    by (rule PowerSpectrum_unfold[OF pos f2]) (simp only: nH nH2 g2)
  have h2: "(2::nat) ^ (k - 1) < ?H" "0 < (2::nat) ^ (k - 1)" "0 < ?H" using k by simp_all
  have v: "out ! i = ro ! i * ro ! i + io ! i * io ! i" if i: "i < ?H" for i
  proof -
    have iO: "i < length Out'" "i < length R'" "i < length I'" using i len l' lR by simp_all
    consider "i = 0" | "i = 2 ^ (k - 1)" | "1 \<le> i" "i < 2 ^ (k - 1)" | "2 ^ (k - 1) < i"
      by linarith
    then show ?thesis
    proof cases
      case 1
      have "R' ! 0 = Rp ! 0" "I' ! 0 = Ip ! 0" using u[of 0] same h2 by simp_all
      then show ?thesis using 1 iO h2 by (simp add: out_def ro_def io_def)
    next
      case 2
      have "R' ! i = Rp ! i" "I' ! i = Ip ! i" using u[of i] same 2 HH i by simp_all
      then show ?thesis using 2 iO h2 by (simp add: out_def ro_def io_def)
    next
      case 3
      then have "Out' ! i = R' ! i * R' ! i + I' ! i * I' ! i" using p[of i] iO l' by simp
      then show ?thesis using 3 by (simp add: out_def ro_def io_def)
    next
      case 4
      then have "Out' ! i = R' ! i * R' ! i + I' ! i * I' ! i" using p[of i] iO l' i HH by simp
      then show ?thesis using 4 by (simp add: out_def ro_def io_def)
    qed
  qed
  have w1: "ro ! i = RealOut ! i" if "?H \<le> i" "i < length RealOut" for i
  proof -
    have "R ! i = RealOut ! i"
      using fr that lenR len by (intro drop_eq_nth[of ?H]) simp_all
    moreover have "i \<noteq> 0" using that(1) h2(3) by linarith
    ultimately show ?thesis using u[of i] that by (simp add: ro_def)
  qed
  have w2: "io ! i = ImagOut ! i" if "?H \<le> i" "i < length ImagOut" for i
  proof -
    have "I ! i = ImagOut ! i"
      using fr that lenR len by (intro drop_eq_nth[of ?H]) simp_all
    moreover have "i \<noteq> 0" using that(1) h2(3) by linarith
    ultimately show ?thesis using u[of i] that by (simp add: io_def)
  qed
  have w3: "out ! i = Out ! i" if "?H \<le> i" for i
  proof -
    have "i \<noteq> 0" "i \<noteq> 2 ^ (k - 1)" using that h2 by linarith+
    then show ?thesis using u[of i] that by (simp add: out_def)
  qed
  have L: "length ro = length RealOut" "length io = length ImagOut" "length out = length Out"
    using l' lR by (simp_all add: ro_def io_def out_def)
  show ?thesis
    by (rule_tac exI[of _ ro], rule_tac exI[of _ io], rule_tac exI[of _ out])
       (use e1 e2 L v w1 w2 w3 in blast)
qed

lemma PowerSpectrum_RealFFT_cases:
  assumes "0 < k" "N sdiv 2 = 2 ^ k"
    "2 ^ k \<le> length RealOut" "2 ^ k \<le> length ImagOut" "2 ^ k \<le> length Out"
  obtains ro io out where
    "RealFFT N In RealOut ImagOut = Some (Inr (ro, io))"
    "PowerSpectrum N In Out = Some (Inr out)"
    "length out = length Out"
    "\<And>i. i < 2 ^ k \<Longrightarrow> out ! i = ro ! i * ro ! i + io ! i * io ! i"
    "\<And>i. 2 ^ k \<le> i \<Longrightarrow> i < length RealOut \<Longrightarrow> ro ! i = RealOut ! i"
    "\<And>i. 2 ^ k \<le> i \<Longrightarrow> i < length ImagOut \<Longrightarrow> io ! i = ImagOut ! i"
    "\<And>i. 2 ^ k \<le> i \<Longrightarrow> out ! i = Out ! i"
proof -
  from PowerSpectrum_RealFFT[OF assms, of In]
  obtain ro io out where r:
    "RealFFT N In RealOut ImagOut = Some (Inr (ro, io)) \<and>
     PowerSpectrum N In Out = Some (Inr out) \<and>
     length ro = length RealOut \<and> length io = length ImagOut \<and> length out = length Out \<and>
     (\<forall>i < 2 ^ k. out ! i = ro ! i * ro ! i + io ! i * io ! i) \<and>
     (\<forall>i. 2 ^ k \<le> i \<and> i < length RealOut \<longrightarrow> ro ! i = RealOut ! i) \<and>
     (\<forall>i. 2 ^ k \<le> i \<and> i < length ImagOut \<longrightarrow> io ! i = ImagOut ! i) \<and>
     (\<forall>i. 2 ^ k \<le> i \<longrightarrow> out ! i = Out ! i)"
    by (elim exE) (rule that)
  show thesis
  proof (rule that[of ro io out])
    show "RealFFT N In RealOut ImagOut = Some (Inr (ro, io))" using r by simp
    show "PowerSpectrum N In Out = Some (Inr out)" using r by simp
    show "length out = length Out" using r by simp
    show "out ! i = ro ! i * ro ! i + io ! i * io ! i" if "i < 2 ^ k" for i
      using r that by blast
    show "ro ! i = RealOut ! i" if "2 ^ k \<le> i" "i < length RealOut" for i
      using r that by blast
    show "io ! i = ImagOut ! i" if "2 ^ k \<le> i" "i < length ImagOut" for i
      using r that by blast
    show "out ! i = Out ! i" if "2 ^ k \<le> i" for i
      using r that by blast
  qed
qed

lemma half_of_pow: "0 < k \<Longrightarrow> (2::int) ^ k sdiv 2 = 2 ^ (k - 1)"
  by (cases k) (simp_all add: sdiv_2_nonneg)

text \<open>
  C1, as the code has it: for every size \<open>N = 2^k\<close> from 4 on and every input, the value
  \<^verbatim>\<open>PowerSpectrum\<close> leaves at bin \<open>i\<close> is the squared magnitude of what \<^verbatim>\<open>RealFFT\<close> leaves at that
  bin, for every bin from 0 to \<open>N/2 - 1\<close>, and both calls return. For \<open>N = 2\<close> both calls end
  the process in the transform of size 1.
\<close>

theorem PowerSpectrum_equals_RealFFT_power:
  "(NumSamples = 2 ^ k \<and> 2 \<le> k \<and> i < 2 ^ (k - 1) \<and>
    2 ^ (k - 1) \<le> length RealOut \<and> 2 ^ (k - 1) \<le> length ImagOut \<and> 2 ^ (k - 1) \<le> length Out \<longrightarrow>
      PowerSpectrum_bin NumSamples In Out i = RealFFT_power NumSamples In RealOut ImagOut i \<and>
      PowerSpectrum_bin NumSamples In Out i \<noteq> None) \<and>
   PowerSpectrum 2 In Out = Some (Inl (NotPowerOfTwo 1)) \<and>
   RealFFT 2 In RealOut ImagOut = Some (Inl (NotPowerOfTwo 1))"
proof (intro conjI impI)
  assume a: "NumSamples = 2 ^ k \<and> 2 \<le> k \<and> i < 2 ^ (k - 1) \<and>
    2 ^ (k - 1) \<le> length RealOut \<and> 2 ^ (k - 1) \<le> length ImagOut \<and> 2 ^ (k - 1) \<le> length Out"
  then have k: "0 < k - 1" and N: "NumSamples sdiv 2 = 2 ^ (k - 1)"
    by (simp_all add: half_of_pow)
  have l: "2 ^ (k - 1) \<le> length RealOut" "2 ^ (k - 1) \<le> length ImagOut" "2 ^ (k - 1) \<le> length Out"
    and i: "i < 2 ^ (k - 1)"
    using a by simp_all
  obtain ro io out where r:
      "RealFFT NumSamples In RealOut ImagOut = Some (Inr (ro, io))"
      "PowerSpectrum NumSamples In Out = Some (Inr out)"
      "length out = length Out"
      "\<And>i. i < 2 ^ (k - 1) \<Longrightarrow> out ! i = ro ! i * ro ! i + io ! i * io ! i"
      "\<And>i. 2 ^ (k - 1) \<le> i \<Longrightarrow> i < length RealOut \<Longrightarrow> ro ! i = RealOut ! i"
      "\<And>i. 2 ^ (k - 1) \<le> i \<Longrightarrow> i < length ImagOut \<Longrightarrow> io ! i = ImagOut ! i"
      "\<And>i. 2 ^ (k - 1) \<le> i \<Longrightarrow> out ! i = Out ! i"
    by (rule PowerSpectrum_RealFFT_cases[OF k N l, of In]) (rule that; assumption)
  show "PowerSpectrum_bin NumSamples In Out i = RealFFT_power NumSamples In RealOut ImagOut i"
    using r(1,2) r(4)[OF i] by (simp add: PowerSpectrum_bin_def RealFFT_power_def)
  show "PowerSpectrum_bin NumSamples In Out i \<noteq> None"
    using r by (simp add: PowerSpectrum_bin_def)
next
  have n: "\<not> IsPowerOfTwo 1" by (simp add: IsPowerOfTwo_def)
  show "PowerSpectrum 2 In Out = Some (Inl (NotPowerOfTwo 1))"
    using PowerSpectrum_fails[of 2 In Out] n by (simp add: sdiv_2_nonneg)
  show "RealFFT 2 In RealOut ImagOut = Some (Inl (NotPowerOfTwo 1))"
    using n by (simp add: RealFFT_def Let_def sdiv_2_nonneg FFT_fails split: prod.splits)
qed

theorem PowerSpectrum_equals_RealFFT_power_witness:
  "(8::int) = 2 ^ 3 \<and> (2::nat) \<le> 3 \<and> (1::nat) < 2 ^ (3 - 1) \<and>
   PowerSpectrum_bin 8 [Finite 1, Finite 2, Finite 3, Finite 4, Finite 5, Finite 6, Finite 7, Finite 8]
       [Finite 0, Finite 0, Finite 0, Finite 0] 1
     = RealFFT_power 8 [Finite 1, Finite 2, Finite 3, Finite 4, Finite 5, Finite 6, Finite 7, Finite 8]
         [Finite 0, Finite 0, Finite 0, Finite 0] [Finite 0, Finite 0, Finite 0, Finite 0] 1 \<and>
   PowerSpectrum_bin 8 [Finite 1, Finite 2, Finite 3, Finite 4, Finite 5, Finite 6, Finite 7, Finite 8]
       [Finite 0, Finite 0, Finite 0, Finite 0] 1 \<noteq> None"
proof -
  have h: "(8::int) = 2 ^ 3 \<and> (2::nat) \<le> 3 \<and> (1::nat) < 2 ^ (3 - 1) \<and>
      2 ^ (3 - 1) \<le> length [Finite 0, Finite 0, Finite 0, Finite 0]"
    by simp
  from h PowerSpectrum_equals_RealFFT_power [of 8 3 1 "[Finite 0, Finite 0, Finite 0, Finite 0]"
      "[Finite 0, Finite 0, Finite 0, Finite 0]" "[Finite 0, Finite 0, Finite 0, Finite 0]"
      "[Finite 1, Finite 2, Finite 3, Finite 4, Finite 5, Finite 6, Finite 7, Finite 8]"]
  show ?thesis by blast
qed

text \<open>The claim as stated includes bin \<open>N/2\<close>; neither routine writes it. With \<open>N = 4\<close>, bin 2
  of \<^verbatim>\<open>Out\<close> still holds the 7 it held before the call, while bin 2 of \<^verbatim>\<open>RealOut\<close> and of
  \<^verbatim>\<open>ImagOut\<close> still hold their 0.\<close>

theorem PowerSpectrum_equals_RealFFT_power_counterexample:
  "PowerSpectrum_bin 4 [Finite 1, Finite 2, Finite 3, Finite 4] [Finite 7, Finite 7, Finite 7] 2
     = Some (Finite 7) \<and>
   RealFFT_power 4 [Finite 1, Finite 2, Finite 3, Finite 4]
       [Finite 0, Finite 0, Finite 0] [Finite 0, Finite 0, Finite 0] 2
     = Some (Finite 0)"
proof -
  let ?In = "[Finite 1, Finite 2, Finite 3, Finite 4]"
  let ?Z = "[Finite 0, Finite 0, Finite 0]"
  let ?S = "[Finite 7, Finite 7, Finite 7]"
  have N: "(4::int) sdiv 2 = 2 ^ 1" by (simp add: sdiv_2_nonneg)
  have l: "2 ^ 1 \<le> length ?Z" "2 ^ 1 \<le> length ?S" by simp_all
  obtain ro io out where r:
      "RealFFT 4 ?In ?Z ?Z = Some (Inr (ro, io))"
      "PowerSpectrum 4 ?In ?S = Some (Inr out)"
      "length out = length ?S"
      "\<And>i. i < 2 ^ 1 \<Longrightarrow> out ! i = ro ! i * ro ! i + io ! i * io ! i"
      "\<And>i. 2 ^ 1 \<le> i \<Longrightarrow> i < length ?Z \<Longrightarrow> ro ! i = ?Z ! i"
      "\<And>i. 2 ^ 1 \<le> i \<Longrightarrow> i < length ?Z \<Longrightarrow> io ! i = ?Z ! i"
      "\<And>i. 2 ^ 1 \<le> i \<Longrightarrow> out ! i = ?S ! i"
    by (rule PowerSpectrum_RealFFT_cases[OF zero_less_one N l(1) l(1) l(2), of ?In])
       (rule that; assumption)
  have "ro ! 2 = Finite 0" "io ! 2 = Finite 0" "out ! 2 = Finite 7"
    using r(5)[of 2] r(6)[of 2] r(7)[of 2] by simp_all
  then show ?thesis
    by (simp add: PowerSpectrum_bin_def RealFFT_power_def r(1,2))
qed

text \<open>
  C6, as the code has it: for every size \<open>2^k\<close> from 4 on, \<^verbatim>\<open>PowerSpectrum\<close> returns and writes
  exactly \<open>size/2\<close> values, into the bins 0 to \<open>size/2 - 1\<close>: those bins receive values that
  depend on the input only, not on what the array held, and every slot from \<open>size/2\<close> on,
  the Nyquist bin included, keeps what it held.
\<close>

theorem PowerSpectrum_writes_half:
  "NumSamples = 2 ^ k \<and> 2 \<le> k \<longrightarrow>
     (\<exists>vals. length vals = 2 ^ (k - 1) \<and>
        (\<forall>Out. 2 ^ (k - 1) \<le> length Out \<longrightarrow>
           PowerSpectrum NumSamples In Out = Some (Inr (vals @ drop (2 ^ (k - 1)) Out))))"
proof
  assume a: "NumSamples = 2 ^ k \<and> 2 \<le> k"
  then have k: "0 < k - 1" and N: "NumSamples sdiv 2 = 2 ^ (k - 1)"
    by (simp_all add: half_of_pow)
  let ?H = "(2::nat) ^ (k - 1)"
  let ?Z = "replicate ?H (Finite 0)"
  have lZ: "?H \<le> length ?Z" by simp
  obtain ro io where r0: "RealFFT NumSamples In ?Z ?Z = Some (Inr (ro, io))"
    by (rule PowerSpectrum_RealFFT_cases[OF k N lZ lZ lZ, of In]) (rule that; assumption)
  define vals where "vals = map (\<lambda>i. ro ! i * ro ! i + io ! i * io ! i) [0..<?H]"
  have "PowerSpectrum NumSamples In Out = Some (Inr (vals @ drop ?H Out))"
    if l: "?H \<le> length Out" for Out
  proof -
    obtain ro' io' out where r:
      "RealFFT NumSamples In ?Z ?Z = Some (Inr (ro', io'))"
      "PowerSpectrum NumSamples In Out = Some (Inr out)"
      "length out = length Out"
      "\<And>i. i < ?H \<Longrightarrow> out ! i = ro' ! i * ro' ! i + io' ! i * io' ! i"
      "\<And>i. ?H \<le> i \<Longrightarrow> i < length ?Z \<Longrightarrow> ro' ! i = ?Z ! i"
      "\<And>i. ?H \<le> i \<Longrightarrow> i < length ?Z \<Longrightarrow> io' ! i = ?Z ! i"
      "\<And>i. ?H \<le> i \<Longrightarrow> out ! i = Out ! i"
      by (rule PowerSpectrum_RealFFT_cases[OF k N lZ lZ l, of In]) (rule that; assumption)
    have e: "ro' = ro" "io' = io" using r(1) r0 by simp_all
    have "out = vals @ drop ?H Out"
    proof (rule nth_equalityI)
      show "length out = length (vals @ drop ?H Out)"
        using r(3) l by (simp add: vals_def)
    next
      fix i assume "i < length out"
      then have i: "i < length Out" using r(3) by simp
      show "out ! i = (vals @ drop ?H Out) ! i"
      proof (cases "i < ?H")
        case True
        then show ?thesis using r(4)[OF True] by (simp add: vals_def nth_append e)
      next
        case False
        then have "?H \<le> i" by simp
        from r(7)[OF this] False i l show ?thesis
          by (simp add: vals_def nth_append)
      qed
    qed
    with r(2) show ?thesis by simp
  qed
  moreover have "length vals = ?H" by (simp add: vals_def)
  ultimately show "\<exists>vals. length vals = ?H \<and>
        (\<forall>Out. ?H \<le> length Out \<longrightarrow>
           PowerSpectrum NumSamples In Out = Some (Inr (vals @ drop ?H Out)))"
    by blast
qed

theorem PowerSpectrum_writes_half_witness:
  "(4::int) = 2 ^ 2 \<and> (2::nat) \<le> 2 \<and>
   (\<exists>vals. length vals = 2 ^ (2 - 1) \<and>
      2 ^ (2 - 1) \<le> length [Finite 7, Finite 7, Finite 7] \<and>
      PowerSpectrum 4 [Finite 1, Finite 2, Finite 3, Finite 4] [Finite 7, Finite 7, Finite 7]
        = Some (Inr (vals @ drop (2 ^ (2 - 1)) [Finite 7, Finite 7, Finite 7])))"
proof -
  have h: "(4::int) = 2 ^ 2 \<and> (2::nat) \<le> 2" by simp
  have l: "2 ^ (2 - 1) \<le> length [Finite 7, Finite 7, Finite 7]" by simp
  from h l PowerSpectrum_writes_half [of 4 2 "[Finite 1, Finite 2, Finite 3, Finite 4]"]
  show ?thesis by blast
qed

text \<open>The claim as stated counts the Nyquist bin \<open>size/2\<close> among the bins written. With size
  4, bin 2 holds after the call whatever it held before: 7 in one call, 8 in the other.\<close>

theorem PowerSpectrum_writes_half_counterexample:
  "PowerSpectrum_bin 4 [Finite 1, Finite 2, Finite 3, Finite 4] [Finite 7, Finite 7, Finite 7] 2
     = Some (Finite 7) \<and>
   PowerSpectrum_bin 4 [Finite 1, Finite 2, Finite 3, Finite 4] [Finite 8, Finite 8, Finite 8] 2
     = Some (Finite 8)"
proof -
  let ?In = "[Finite 1, Finite 2, Finite 3, Finite 4]"
  have N: "(4::int) sdiv 2 = 2 ^ 1" by (simp add: sdiv_2_nonneg)
  have "PowerSpectrum_bin 4 ?In Out 2 = Some (Out ! 2)" if l: "2 ^ 1 \<le> length Out" for Out
  proof -
    obtain out where r: "PowerSpectrum 4 ?In Out = Some (Inr out)"
      "\<And>i. 2 ^ 1 \<le> i \<Longrightarrow> out ! i = Out ! i"
      by (rule PowerSpectrum_RealFFT_cases[OF zero_less_one N l l l, of ?In]) (rule that; assumption)
    from r(2)[of 2] show ?thesis by (simp add: PowerSpectrum_bin_def r(1))
  qed
  from this[of "[Finite 7, Finite 7, Finite 7]"] this[of "[Finite 8, Finite 8, Finite 8]"]
  show ?thesis by simp
qed

section \<open>The normalisation\<close>

lemma clip_fold:
  "fold (\<lambda>i h. if h (q + i) < Finite 0 then h(q + i := Finite 0) else h) [0..<n] h
   = (\<lambda>a. if q \<le> a \<and> a < q + n then (if h a < Finite 0 then Finite 0 else h a) else h a)"
proof -
  have "(\<lambda>i h. if h (q + i) < Finite 0 then h(q + i := Finite 0) else h)
        = (\<lambda>i (h :: heap). h(q + i := (if h (q + i) < Finite 0 then Finite 0 else h (q + i))))"
    by (auto simp: fun_eq_iff)
  then show ?thesis
    using fold_heap_update[where g = "\<lambda>i v. if v < Finite 0 then Finite 0 else v"] by simp
qed

lemma not_less_zero_iff: "\<not> v < Finite 0 \<longleftrightarrow> v = NaN \<or> Finite 0 \<le> v"
  by (cases v) auto

lemma analysefrequencies_finish_clipped:
  assumes "i < nat (W sdiv 2)"
  shows "\<not> snd (analysefrequencies_finish 3 W q s) (q + i) < Finite 0"
proof -
  have "\<not> (if x < Finite 0 then Finite 0 else x) < Finite 0" for x :: float
    by simp
  then show ?thesis
    using assms
    by (simp add: analysefrequencies_finish_def Let_def case_prod_beta clip_fold)
qed

text \<open>
  C5, as the code has it: for valid parameters with algorithm 3, a window size that is a
  power of two and a number of samples of at most \<open>2147483647 - windowSize / 2\<close> (so that no
  value of \<^verbatim>\<open>start + mWindowSize\<close> in the test of the loop leaves the range of \<^verbatim>\<open>int\<close>), the
  call returns a curve of \<open>windowSize / 2\<close> values none of which is negative: each is at
  least 0, or is not a number. (The two clips test \<^verbatim>\<open>value < 0.0\<close>, which is false for
  NaN.)
\<close>

theorem enhanced_autocorrelation_not_negative:
  "valid_parameters 3 windowFunc windowSize \<and> \<not> mDataLen < windowSize \<and>
   mDataLen \<le> 2147483647 - windowSize sdiv 2 \<and> IsPowerOfTwo windowSize \<longrightarrow>
     (\<exists>h'. analysefrequencies 3 windowFunc windowSize mData mDataLen mProcessed h
              = Some (Inr (windowSize sdiv 2, h')) \<and>
           (\<forall>i < nat (windowSize sdiv 2).
              \<not> h' (mProcessed + i) < Finite 0 \<and>
              (h' (mProcessed + i) = NaN \<or> Finite 0 \<le> h' (mProcessed + i))))"
proof
  assume a: "valid_parameters 3 windowFunc windowSize \<and> \<not> mDataLen < windowSize \<and>
             mDataLen \<le> 2147483647 - windowSize sdiv 2 \<and> IsPowerOfTwo windowSize"
  let ?s0 = "\<lparr>mem = fold (\<lambda>i h. h(mProcessed + i := Finite 0)) [0..<nat windowSize] h,
              in_array = new_float windowSize, out_array = new_float windowSize,
              out2_array = new_float windowSize, start = 0, windows = 0\<rparr>"
  have p: "IsPowerOfTwo (transform_size 3 windowSize)" using a by (simp add: transform_size_def)
  obtain s where s: "analysefrequencies_loop 3 windowFunc windowSize mData mDataLen mProcessed
                       (windowSize sdiv 2) ?s0 = Some (Inr s)"
    using analysefrequencies_loop_returns[OF _ _ p, of windowFunc mDataLen ?s0 mData mProcessed] a
    by auto
  have r: "analysefrequencies 3 windowFunc windowSize mData mDataLen mProcessed h
           = Some (Inr (analysefrequencies_finish 3 windowSize mProcessed s))"
    using a by (simp add: analysefrequencies_valid s)
  have f: "fst (analysefrequencies_finish 3 windowSize mProcessed s) = windowSize sdiv 2"
    by (simp add: analysefrequencies_finish_length)
  have "\<not> snd (analysefrequencies_finish 3 windowSize mProcessed s) (mProcessed + i) < Finite 0"
    if "i < nat (windowSize sdiv 2)" for i
    using that by (rule analysefrequencies_finish_clipped)
  then show "\<exists>h'. analysefrequencies 3 windowFunc windowSize mData mDataLen mProcessed h
              = Some (Inr (windowSize sdiv 2, h')) \<and>
           (\<forall>i < nat (windowSize sdiv 2).
              \<not> h' (mProcessed + i) < Finite 0 \<and>
              (h' (mProcessed + i) = NaN \<or> Finite 0 \<le> h' (mProcessed + i)))"
    using r f
    by (cases "analysefrequencies_finish 3 windowSize mProcessed s")
       (auto simp: not_less_zero_iff)
qed

theorem enhanced_autocorrelation_not_negative_witness:
  "valid_parameters 3 0 32 \<and> \<not> (32::int) < 32 \<and> (32::int) \<le> 2147483647 - 32 sdiv 2 \<and>
   IsPowerOfTwo 32 \<and>
   (\<exists>h'. analysefrequencies 3 0 32 0 32 32 (const_heap (Finite 1)) = Some (Inr (32 sdiv 2, h')) \<and>
         (\<forall>i < nat (32 sdiv 2). \<not> h' (32 + i) < Finite 0 \<and>
              (h' (32 + i) = NaN \<or> Finite 0 \<le> h' (32 + i))))"
proof -
  have h: "valid_parameters 3 0 32 \<and> \<not> (32::int) < 32 \<and> (32::int) \<le> 2147483647 - 32 sdiv 2 \<and>
           IsPowerOfTwo 32"
    by (simp add: valid_parameters_def IsPowerOfTwo_def)
  from h enhanced_autocorrelation_not_negative [of 0 32 32 0 32 "const_heap (Finite 1)"]
  show ?thesis by blast
qed


lemma nat_pow2 [simp]: "nat (2 ^ k) = 2 ^ k"
  by (simp add: nat_power_eq)

lemma NaN_arith [simp]:
  "x + NaN = NaN" "NaN + x = NaN" "NaN * x = NaN" "x * NaN = NaN" "NaN / x = NaN" "NaN - x = NaN"
  "pow_third NaN = NaN" "\<not> NaN < x"
  by (cases x; simp add: minus_float_def)+

lemma analysefrequencies_block_NaN:
  assumes k: "0 < k"
    and len: "length (in_array s) = 2 ^ k" "length (out_array s) = 2 ^ k" "length (out2_array s) = 2 ^ k"
    and nan: "\<forall>i < 2 ^ k. mem s (p + nat (start s + int i)) = NaN"
  shows "\<exists>s'. analysefrequencies_block 3 0 (2 ^ k) p q s = Some (Inr s')
              \<and> start s' = start s \<and> windows s' = windows s
              \<and> (\<forall>i < 2 ^ (k - 1). mem s' (q + i) = NaN)"
proof -
  define inb where "inb = fold (\<lambda>i in_buf. in_buf[i := mem s (p + nat (start s + int i))])
                     [0..<2 ^ k] (in_array s)"
  have inb_len: "length inb = 2 ^ k" by (simp add: inb_def len)
  have inb_nan: "\<forall>i < 2 ^ k. inb ! i = NaN"
    using nan fold_update_nth[where g = "\<lambda>i v. mem s (p + nat (start s + int i))" and n = "2 ^ k"
        and xs = "in_array s"]
    by (simp add: inb_def len)
  have p2: "IsPowerOfTwo (2 ^ k)" by (rule IsPowerOfTwo_pow[OF k])
  obtain o1 o2 where f1: "FFT (2 ^ k) False inb None (out_array s) (out2_array s) = Some (Inr (o1, o2))"
    using FFT_returns[OF p2, of False inb None "out_array s" "out2_array s"] by auto
  have o_len: "length o1 = 2 ^ k" "length o2 = 2 ^ k"
    using FFT_length[OF f1] len by simp_all
  have o1_nan: "\<forall>m < 2 ^ k. o1 ! m = NaN"
    by (rule FFT_forward_NaN[OF k _ _ inb_nan f1]) (simp_all add: len)
  define inb1 where "inb1 = fold (\<lambda>i in_buf. in_buf[i := (o1 ! i * o1 ! i) + (o2 ! i * o2 ! i)])
                               [0..<2 ^ k] inb"
  have inb1_len: "length inb1 = 2 ^ k" by (simp add: inb1_def inb_len)
  have inb1_nan: "\<forall>i < 2 ^ k. inb1 ! i = NaN"
    using o1_nan fold_update_nth[where g = "\<lambda>i v. (o1 ! i * o1 ! i) + (o2 ! i * o2 ! i)"
        and n = "2 ^ k" and xs = inb]
    by (simp add: inb1_def inb_len)
  define inb3 where "inb3 = fold (\<lambda>i in_buf. in_buf[i := pow_third (in_buf ! i)]) [0..<2 ^ k] inb1"
  have inb3_nan: "\<forall>i < 2 ^ k. inb3 ! i = NaN"
    using inb1_nan fold_update_nth[where g = "\<lambda>i v. pow_third v" and n = "2 ^ k" and xs = inb1]
    by (simp add: inb3_def inb1_len)
  obtain o3 o4 where f2: "FFT (2 ^ k) False inb3 None o1 o2 = Some (Inr (o3, o4))"
    using FFT_returns[OF p2, of False inb3 None o1 o2] by auto
  have o3_nan: "\<forall>m < 2 ^ k. o3 ! m = NaN"
    by (rule FFT_forward_NaN[OF k _ _ inb3_nan f2]) (simp_all add: o_len)
  have h: "(2::int) ^ k sdiv 2 = 2 ^ (k - 1)" by (rule half_of_pow[OF k])
  have lt: "(2::nat) ^ (k - 1) < 2 ^ k" using k by simp
  have acc: "fold (\<lambda>i h. h(q + i := h (q + i) + o3 ! i)) [0..<2 ^ (k - 1)] (mem s) (q + i) = NaN"
    if "i < 2 ^ (k - 1)" for i
  proof -
    have "i < 2 ^ k" by (rule order_less_trans[OF that lt])
    then have "o3 ! i = NaN" using o3_nan by simp
    then show ?thesis
      using that by (simp add: fold_heap_update[where g = "\<lambda>i v. v + o3 ! i"])
  qed
  have W: "WindowFunc 0 (2 ^ k) inb = inb" by (simp add: WindowFunc_def)
  have "analysefrequencies_block 3 0 (2 ^ k) p q s
        = Some (Inr (s\<lparr>in_array := inb3, out_array := o3, out2_array := o4,
                       mem := fold (\<lambda>i h. h(q + i := h (q + i) + o3 ! i)) [0..<2 ^ (k - 1)] (mem s)\<rparr>))"
    unfolding analysefrequencies_block_def
    by (simp add: Let_def h W inb_def[symmetric] f1 inb1_def[symmetric] inb3_def[symmetric] f2)
  then show ?thesis using acc by simp
qed

lemma analysefrequencies_finish_NaN:
  assumes "\<forall>i < nat (W sdiv 2). mem s (q + i) = NaN" "i < nat (W sdiv 2)"
  shows "snd (analysefrequencies_finish 3 W q s) (q + i) = NaN"
proof -
  let ?n = "nat (W sdiv 2)"
  let ?in = "\<lambda>h :: heap. \<forall>i < ?n. h (q + i) = NaN"
  define hA where "hA = fold (\<lambda>i h. h(q + i := h (q + i) / float_of_int (windows s))) [0..<?n] (mem s)"
  have A: "?in hA"
    using assms(1) unfolding hA_def
    by (simp add: fold_heap_update[where g = "\<lambda>i v. v / float_of_int (windows s)"])
  define B where "B = fold (\<lambda>i (h, out).
                           (if h (q + i) < Finite 0 then h(q + i := Finite 0) else h,
                            out[i := (if h (q + i) < Finite 0 then h(q + i := Finite 0) else h) (q + i)]))
                         [0..<?n] (hA, out_array s)"
  have "?in (fst B)"
    unfolding B_def
    by (rule fold_invariant[where P = "\<lambda>b. ?in (fst b)"]) (use A in \<open>auto simp: Let_def\<close>)
  then have Bn: "?in (fst B)" .
  define hC where "hC = fold (\<lambda>i h.
                            if i mod 2 = 0
                            then h(q + i := h (q + i) - snd B ! (i div 2))
                            else h(q + i := h (q + i)
                                     - ((snd B ! (i div 2) + snd B ! (i div 2 + 1)) / Finite 2)))
                      [0..<?n] (fst B)"
  have C: "?in hC"
    unfolding hC_def
    by (rule fold_invariant[where P = ?in]) (use Bn in auto)
  have D: "?in (fold (\<lambda>i h. if h (q + i) < Finite 0 then h(q + i := Finite 0) else h) [0..<?n] hC)"
    using C by (simp add: clip_fold)
  have "snd (analysefrequencies_finish 3 W q s)
        = fold (\<lambda>i h. if h (q + i) < Finite 0 then h(q + i := Finite 0) else h) [0..<?n] hC"
    unfolding hC_def B_def hA_def analysefrequencies_finish_def
    by (simp add: Let_def case_prod_beta)
  then show ?thesis using D assms(2) by simp
qed

text \<open>
  C5 as stated fails on samples that are not numbers: with a window of 32 samples that are
  all NaN, the curve of algorithm 3 starts with NaN, which is not at least 0.
\<close>

theorem enhanced_autocorrelation_not_negative_counterexample:
  "memory_after (analysefrequencies 3 0 32 0 32 32 (const_heap NaN)) 32 = Some NaN
   \<and> \<not> Finite 0 \<le> NaN"
proof -
  let ?h0 = "fold (\<lambda>i h. h(32 + i := Finite 0)) [0..<nat 32] (const_heap NaN)"
  let ?s0 = "\<lparr>mem = ?h0, in_array = new_float 32, out_array = new_float 32,
              out2_array = new_float 32, start = 0, windows = 0\<rparr>"
  have e: "(32::int) = 2 ^ 5" "(32::nat) = 2 ^ 5" by simp_all
  have h0: "?h0 (0 + nat (start ?s0 + int i)) = NaN" if "i < 2 ^ 5" for i
    using that by (simp add: fold_heap_update[where g = "\<lambda>i v. Finite 0"] const_heap_def)
  obtain s1 where s1: "analysefrequencies_block 3 0 (2 ^ 5) 0 32 ?s0 = Some (Inr s1)"
    "start s1 = 0" "windows s1 = 0" "\<forall>i < 2 ^ (5 - 1). mem s1 (32 + i) = NaN"
    using analysefrequencies_block_NaN[of 5 ?s0 0 32] h0 by (auto simp: new_float_def)
  let ?s2 = "s1\<lparr>start := start s1 + 16, windows := windows s1 + 1\<rparr>"
  have l: "analysefrequencies_loop 3 0 32 0 32 32 (32 sdiv 2) ?s0 = Some (Inr ?s2)"
    using s1(1-3)
    by (subst analysefrequencies_loop.simps, simp, subst analysefrequencies_loop.simps, simp)
  have v: "valid_parameters 3 0 32" by (simp add: valid_parameters_def)
  have r: "analysefrequencies 3 0 32 0 32 32 (const_heap NaN)
           = Some (Inr (analysefrequencies_finish 3 32 32 ?s2))"
    using analysefrequencies_valid[OF v, of 32 0 32 "const_heap NaN"] l by simp
  have "\<forall>i < nat (32 sdiv 2). mem ?s2 (32 + i) = NaN" using s1(4) by simp
  from analysefrequencies_finish_NaN[OF this, of 0]
  have "snd (analysefrequencies_finish 3 32 32 ?s2) 32 = NaN" by simp
  then show ?thesis
    unfolding r memory_after_def
    by (cases "analysefrequencies_finish 3 32 32 ?s2") simp
qed

section \<open>Silence\<close>

lemma float_of_int_pow2 [simp]: "float_of_int (2 ^ k) = Finite (2 ^ k)"
  by (simp add: float_of_int_def)

text \<open>The recombination loop of \<^verbatim>\<open>PowerSpectrum\<close> on a transform that is zero everywhere
  writes zeros.\<close>

lemma PowerSpectrum_loop_zero:
  assumes z: "\<forall>i < H. R ! i = Finite 0 \<and> I ! i = Finite 0"
    and len: "H \<le> length Out"
  shows "1 \<le> m \<Longrightarrow> 2 * m \<le> H \<Longrightarrow>
         \<exists>x y Out'.
            fold (PowerSpectrum_step H (Finite a) (Finite b) R I) [1..<m] (Finite x0, Finite y0, Out)
              = (Finite x, Finite y, Out') \<and>
            length Out' = length Out \<and>
            (\<forall>i. (1 \<le> i \<and> i < m) \<or> (H - m < i \<and> i < H) \<longrightarrow> Out' ! i = Finite 0)"
proof (induction m rule: nat_induct_at_least)
  case base
  show ?case by auto
next
  case (Suc m)
  then have m: "1 \<le> m" "2 * m \<le> H" "m < H" "H - m < H" "m < H - m" by simp_all
  from Suc.IH[OF m(2)] obtain x y Out' where
    f: "fold (PowerSpectrum_step H (Finite a) (Finite b) R I) [1..<m] (Finite x0, Finite y0, Out)
              = (Finite x, Finite y, Out')"
    and l: "length Out' = length Out"
    and w: "\<forall>i. (1 \<le> i \<and> i < m) \<or> (H - m < i \<and> i < H) \<longrightarrow> Out' ! i = Finite 0"
    by blast
  have zm: "R ! m = Finite 0" "I ! m = Finite 0" "R ! (H - m) = Finite 0" "I ! (H - m) = Finite 0"
    using z m(3,4) by simp_all
  define Out'' where "Out'' = Out'[m := Finite 0, H - m := Finite 0]"
  have st: "PowerSpectrum_step H (Finite a) (Finite b) R I m (Finite x, Finite y, Out')
            = (Finite (x * a - y * b + x), Finite (y * a + x * b + y), Out'')"
    by (simp add: PowerSpectrum_step_def Let_def zm minus_float_def Out''_def)
  have "fold (PowerSpectrum_step H (Finite a) (Finite b) R I) [1..<Suc m] (Finite x0, Finite y0, Out)
        = (Finite (x * a - y * b + x), Finite (y * a + x * b + y), Out'')"
    using m(1) by (simp only: upt_1_Suc fold_append o_apply f fold_simps st)
  moreover have "length Out'' = length Out" by (simp add: Out''_def l)
  moreover have "Out'' ! i = Finite 0" if "(1 \<le> i \<and> i < Suc m) \<or> (H - Suc m < i \<and> i < H)" for i
  proof -
    have "i = m \<or> i = H - m \<or> (1 \<le> i \<and> i < m) \<or> (H - m < i \<and> i < H)"
      using that m by arith
    moreover have "m < length Out'" "H - m < length Out'" using m len l by simp_all
    ultimately show ?thesis
      using w by (auto simp: Out''_def nth_list_update)
  qed
  ultimately show ?case by blast
qed

lemma PowerSpectrum_zero:
  assumes k: "0 < k" and N: "N sdiv 2 = 2 ^ k"
    and z: "\<forall>i < 2 * 2 ^ k. In ! i = Finite 0"
    and len: "2 ^ k \<le> length Out"
  shows "\<exists>out. PowerSpectrum N In Out = Some (Inr out) \<and> length out = length Out \<and>
               (\<forall>i < 2 ^ k. out ! i = Finite 0)"
proof -
  let ?re = "map (\<lambda>i. In ! (2 * i)) [0..<2 ^ k]"
  let ?im = "map (\<lambda>i. In ! (2 * i + 1)) [0..<2 ^ k]"
  have p2: "IsPowerOfTwo (2 ^ k)" by (rule IsPowerOfTwo_pow[OF k])
  obtain bufs where fb: "FFT (2 ^ k) False ?re (Some ?im) (new_float (2 ^ k)) (new_float (2 ^ k))
                       = Some (Inr bufs)"
    using FFT_returns[OF p2, of False ?re "Some ?im" "new_float (2 ^ k)" "new_float (2 ^ k)"]
    by (elim exE)
  obtain R I where "bufs = (R, I)" by (cases bufs)
  with fb have f: "FFT (2 ^ k) False ?re (Some ?im) (new_float (2 ^ k)) (new_float (2 ^ k))
                       = Some (Inr (R, I))" by simp
  have zin: "\<forall>i < 2 ^ k. ?re ! i = Finite 0" using z by simp
  have zim: "\<forall>i < 2 ^ k. (case Some ?im of None \<Rightarrow> Finite 0 | Some ImagIn \<Rightarrow> ImagIn ! i) = Finite 0"
    using z by simp
  have zo: "\<forall>m < 2 ^ k. R ! m = Finite 0 \<and> I ! m = Finite 0"
    by (rule FFT_forward_zero[OF k _ _ zin zim f]) simp_all
  have hh: "(2::int) ^ k sdiv 2 = 2 ^ (k - 1)" by (rule half_of_pow[OF k])
  have m: "1 \<le> (2::nat) ^ (k - 1)" "2 * 2 ^ (k - 1) \<le> (2::nat) ^ k"
    using k by (simp_all flip: power_Suc)
  define a where "a = - (2 * sin (pi / (2 * 2 ^ k)) * sin (pi / (2 * 2 ^ k)))"
  define b where "b = sin (pi / 2 ^ k)"
  have A: "Finite (- 2) * fsin (Finite 0.5 * (Finite pi / Finite (2 ^ k)))
                    * fsin (Finite 0.5 * (Finite pi / Finite (2 ^ k))) = Finite a"
    by (simp add: a_def)
  have B: "fsin (Finite pi / Finite (2 ^ k)) = Finite b"
    by (simp add: b_def)
  have C: "Finite 1 + Finite a = Finite (1 + a)" by simp
  from PowerSpectrum_loop_zero[OF zo len m, of a b "1 + a" b]
  obtain x y Out' where
    lf: "fold (PowerSpectrum_step (2 ^ k) (Finite a) (Finite b) R I) [1..<2 ^ (k - 1)]
           (Finite (1 + a), Finite b, Out) = (Finite x, Finite y, Out')"
    and l: "length Out' = length Out"
    and w: "\<forall>i. (1 \<le> i \<and> i < 2 ^ (k - 1)) \<or> (2 ^ k - 2 ^ (k - 1) < i \<and> i < 2 ^ k) \<longrightarrow> Out' ! i = Finite 0"
    by blast
  have hl: "(2::nat) ^ (k - 1) < 2 ^ k" using k by simp
  have z0: "R ! 0 = Finite 0" "I ! 0 = Finite 0"
    "R ! (2 ^ (k - 1)) = Finite 0" "I ! (2 ^ (k - 1)) = Finite 0"
    using zo hl by simp_all
  have n: "nat (N sdiv 2) = 2 ^ k" "nat (N sdiv 2 sdiv 2) = 2 ^ (k - 1)"
    by (simp_all add: N hh)
  have fl: "float_of_int (N sdiv 2) = Finite (2 ^ k)" by (simp add: N)
  have u0: "PowerSpectrum N In Out
         = Some (Inr (Out'[0 := (R ! 0 + I ! 0) * (R ! 0 + I ! 0) + (R ! 0 - I ! 0) * (R ! 0 - I ! 0),
                           nat (N sdiv 2 sdiv 2) :=
                             R ! nat (N sdiv 2 sdiv 2) * R ! nat (N sdiv 2 sdiv 2)
                             + I ! nat (N sdiv 2 sdiv 2) * I ! nat (N sdiv 2 sdiv 2)]))"
  proof (rule PowerSpectrum_unfold)
    show "\<not> N sdiv 2 < 0" by (simp add: N)
    show "FFT (N sdiv 2) False (map (\<lambda>i. In ! (2 * i)) [0..<nat (N sdiv 2)])
           (Some (map (\<lambda>i. In ! (2 * i + 1)) [0..<nat (N sdiv 2)]))
           (new_float (N sdiv 2)) (new_float (N sdiv 2)) = Some (Inr (R, I))"
      unfolding n using f by (simp only: N)
    show "fold (PowerSpectrum_step (nat (N sdiv 2))
                 (Finite (- 2) * fsin (Finite 0.5 * (Finite pi / float_of_int (N sdiv 2)))
                    * fsin (Finite 0.5 * (Finite pi / float_of_int (N sdiv 2))))
                 (fsin (Finite pi / float_of_int (N sdiv 2))) R I)
           [1..<nat (N sdiv 2 sdiv 2)]
           (Finite 1 + Finite (- 2) * fsin (Finite 0.5 * (Finite pi / float_of_int (N sdiv 2)))
                    * fsin (Finite 0.5 * (Finite pi / float_of_int (N sdiv 2))),
            fsin (Finite pi / float_of_int (N sdiv 2)), Out) = (Finite x, Finite y, Out')"
      unfolding n fl A B C by (rule lf)
  qed
  have e: "(Finite 0 + Finite 0) * (Finite 0 + Finite 0) + (Finite 0 - Finite 0) * (Finite 0 - Finite 0)
           = Finite 0" "Finite 0 * Finite 0 + Finite 0 * Finite 0 = Finite 0"
    by (simp_all add: minus_float_def)
  have u: "PowerSpectrum N In Out = Some (Inr (Out'[0 := Finite 0, 2 ^ (k - 1) := Finite 0]))"
    using u0 unfolding n z0 e .
  have d: "2 ^ k - 2 ^ (k - 1) = (2::nat) ^ (k - 1)"
    using k by (cases k) simp_all
  have "(Out'[0 := Finite 0, 2 ^ (k - 1) := Finite 0]) ! i = Finite 0" if "i < 2 ^ k" for i
  proof -
    have c: "i = 0 \<or> i = 2 ^ (k - 1) \<or> (1 \<le> i \<and> i < 2 ^ (k - 1)) \<or> (2 ^ k - 2 ^ (k - 1) < i \<and> i < 2 ^ k)"
      unfolding d using that by arith
    have "2 ^ (k - 1) < length Out'" using order_less_le_trans[OF hl len] l by simp
    moreover from this have "0 < length Out'" by (rule order_le_less_trans[OF le0])
    ultimately have "0 < length Out'" "2 ^ (k - 1) < length Out'" by blast+
    then show ?thesis using c w by (auto simp: nth_list_update)
  qed
  then show ?thesis using u l by simp
qed


text \<open>One block of algorithm 0 without a window function, on samples that are zero, adds
  zero to every value of the curve.\<close>

lemma analysefrequencies_block_zero:
  assumes k: "0 < k"
    and len: "length (in_array s) = 2 * 2 ^ k" "2 ^ k \<le> length (out_array s)"
    and z: "\<forall>i < 2 * 2 ^ k. mem s (p + nat (start s + int i)) = Finite 0"
    and c: "\<forall>i < 2 ^ k. mem s (q + i) = Finite 0"
  shows "\<exists>s'. analysefrequencies_block 0 0 (2 * 2 ^ k) p q s = Some (Inr s')
              \<and> start s' = start s \<and> windows s' = windows s
              \<and> (\<forall>i < 2 ^ k. mem s' (q + i) = Finite 0)"
proof -
  define inb where "inb = fold (\<lambda>i in_buf. in_buf[i := mem s (p + nat (start s + int i))])
                     [0..<2 * 2 ^ k] (in_array s)"
  have inb_z: "\<forall>i < 2 * 2 ^ k. inb ! i = Finite 0"
    using z fold_update_nth[where g = "\<lambda>i v. mem s (p + nat (start s + int i))" and n = "2 * 2 ^ k"
        and xs = "in_array s"]
    by (simp add: inb_def len)
  have N: "(2 * 2 ^ k :: int) sdiv 2 = 2 ^ k" by (simp add: sdiv_2_nonneg)
  from PowerSpectrum_zero[OF k N inb_z len(2)]
  obtain out where o: "PowerSpectrum (2 * 2 ^ k) inb (out_array s) = Some (Inr out)"
    and oz: "\<forall>i < 2 ^ k. out ! i = Finite 0"
    by blast
  have n: "nat (2 * 2 ^ k) = 2 * 2 ^ k"
    by (simp add: nat_mult_distrib)
  have W: "WindowFunc 0 (2 * 2 ^ k) inb = inb" by (simp add: WindowFunc_def)
  have acc: "fold (\<lambda>i h. h(q + i := h (q + i) + out ! i)) [0..<2 ^ k] (mem s) (q + i) = Finite 0"
    if "i < 2 ^ k" for i
    using that oz c by (simp add: fold_heap_update[where g = "\<lambda>i v. v + out ! i"])
  have "analysefrequencies_block 0 0 (2 * 2 ^ k) p q s
        = Some (Inr (s\<lparr>in_array := inb, out_array := out,
                       mem := fold (\<lambda>i h. h(q + i := h (q + i) + out ! i)) [0..<2 ^ k] (mem s)\<rparr>))"
    unfolding analysefrequencies_block_def
    by (simp add: Let_def N n W inb_def[symmetric] o)
  then show ?thesis using acc by simp
qed

text \<open>The decibel conversion at the end of algorithm 0.\<close>

lemma analysefrequencies_finish_decibel:
  assumes "i < nat (W sdiv 2)"
  shows "snd (analysefrequencies_finish 0 W q s) (q + i)
         = Finite 10 * flog10 (mem s (q + i) / float_of_int W / float_of_int (windows s))"
  using assms
  by (simp add: analysefrequencies_finish_def Let_def
      fold_heap_update[where g = "\<lambda>i v. Finite 10 * flog10 (v / float_of_int W / float_of_int (windows s))"])

lemma analysefrequencies_silence:
  assumes "\<forall>i < 64. h (p + i) = Finite 0"
  shows "\<exists>h'. analysefrequencies 0 0 64 p 64 q h = Some (Inr (32, h')) \<and>
              (\<forall>i < 32. h' (q + i) = NInf)"
proof -
  let ?h0 = "fold (\<lambda>i h. h(q + i := Finite 0)) [0..<64] h"
  let ?s0 = "\<lparr>mem = ?h0, in_array = new_float 64, out_array = new_float 64,
              out2_array = new_float 64, start = 0, windows = 0\<rparr>"
  have h0: "?h0 a = (if q \<le> a \<and> a < q + 64 then Finite 0 else h a)" for a
    by (simp add: fold_heap_update[where g = "\<lambda>i v. Finite 0"])
  have z: "\<forall>i < 2 * 2 ^ 5. mem ?s0 (p + nat (start ?s0 + int i)) = Finite 0"
    using assms by (simp add: h0)
  have c: "\<forall>i < 2 ^ 5. mem ?s0 (q + i) = Finite 0"
    by (simp add: h0)
  have l: "length (in_array ?s0) = 2 * 2 ^ 5" "2 ^ 5 \<le> length (out_array ?s0)"
    by simp_all
  from analysefrequencies_block_zero[OF _ l z c]
  obtain s1 where s1: "analysefrequencies_block 0 0 64 p q ?s0 = Some (Inr s1)"
    "start s1 = 0" "windows s1 = 0" "\<forall>i < 32. mem s1 (q + i) = Finite 0"
    by auto
  let ?s2 = "s1\<lparr>start := start s1 + 32, windows := windows s1 + 1\<rparr>"
  have lo: "analysefrequencies_loop 0 0 64 p 64 q (64 sdiv 2) ?s0 = Some (Inr ?s2)"
    using s1(1-3)
    by (subst analysefrequencies_loop.simps, simp, subst analysefrequencies_loop.simps, simp)
  have v: "valid_parameters 0 0 64" by (simp add: valid_parameters_def)
  have r: "analysefrequencies 0 0 64 p 64 q h
           = Some (Inr (analysefrequencies_finish 0 64 q ?s2))"
    using analysefrequencies_valid[OF v, of 64 p q h] lo by simp
  have f: "fst (analysefrequencies_finish 0 64 q ?s2) = 32"
    by (simp add: analysefrequencies_finish_length)
  have "snd (analysefrequencies_finish 0 64 q ?s2) (q + i) = NInf" if "i < 32" for i
    using that s1(3,4)
    by (simp add: analysefrequencies_finish_decibel float_of_int_def)
  then show ?thesis
    unfolding r using f
    by (cases "analysefrequencies_finish 0 64 q ?s2") simp
qed

text \<open>
  C8, as the code has it: the call with algorithm 0, no window function and a window of 64 on
  64 samples that are all zero returns a curve of length 32, and every value of the curve is
  minus infinity: the accumulated power is 0, and the source computes
  \<^verbatim>\<open>10 * log10(mProcessed[i] / mWindowSize / windows)\<close> with no test of its argument.
\<close>

theorem silence_gives_minus_infinity:
  "(\<forall>i < 64. h (mData + i) = Finite 0) \<longrightarrow>
   (\<exists>h'. analysefrequencies 0 0 64 mData 64 mProcessed h = Some (Inr (32, h')) \<and>
         (\<forall>i < 32. h' (mProcessed + i) = NInf))"
  using analysefrequencies_silence by blast

theorem silence_gives_minus_infinity_witness:
  "\<exists>h'. analysefrequencies 0 0 64 0 64 64 (const_heap (Finite 0)) = Some (Inr (32, h')) \<and>
        (\<forall>i < 32. h' (64 + i) = NInf)"
proof -
  have h: "\<forall>i < 64. const_heap (Finite 0) (0 + i) = Finite 0"
    by (simp add: const_heap_def)
  from h silence_gives_minus_infinity [of "const_heap (Finite 0)" 0 64]
  show ?thesis by blast
qed

text \<open>
  C8 as stated fails: the first value of the curve for 64 zero samples is minus infinity,
  not a finite number.
\<close>

theorem silence_gives_minus_infinity_counterexample:
  "memory_after (analysefrequencies 0 0 64 0 64 64 (const_heap (Finite 0))) 64 = Some NInf"
proof -
  have "\<forall>i < 64. const_heap (Finite 0) (0 + i) = Finite 0"
    by (simp add: const_heap_def)
  from analysefrequencies_silence[OF this, of 64]
  obtain h' where "analysefrequencies 0 0 64 0 64 64 (const_heap (Finite 0)) = Some (Inr (32, h'))"
    "\<forall>i < 32. h' (64 + i) = NInf"
    by blast
  then show ?thesis
    using spec[of "\<lambda>i. i < 32 \<longrightarrow> h' (64 + i) = NInf" 0]
    by (simp add: memory_after_def)
qed

end
